theory Spec2Isabelle
  imports Main "HOL-Library.Signed_Division"
begin

section \<open>Prime field arithmetic of the galois library (class PrimeField)\<close>

text \<open>
  The source computes on JavaScript \<open>bigint\<close> values: unbounded integers whose
  division \<open>/\<close> truncates towards zero and whose remainder \<open>%\<close> takes the sign of the
  dividend. They are modelled as \<open>int\<close> with \<open>sdiv\<close> and \<open>smod\<close>.

  A \<open>PrimeField\<close> object only exists for a modulus \<open>\<ge> 1\<close>: its constructor shifts the
  modulus right until it equals 1 and never returns for 0 or a negative number. The
  modulus is the first argument \<open>p\<close> of every function below; no division by the
  modulus can therefore raise a RangeError.
\<close>

subsection \<open>Errors\<close>

datatype error =
    ExpZeroZero         \<comment> \<open>TypeError('Base and exponent cannot be both 0')\<close>
  | OrderNotPowerOf2    \<comment> \<open>Error('Order of unity must be 2^n')\<close>
  | RootNotFound nat    \<comment> \<open>Error('Root of Unity for order ... was not found')\<close>
  | DivHigherOrder      \<comment> \<open>Error('Cannot divide by polynomial of higher order')\<close>
  | TooFewRoots         \<comment> \<open>Error('Number of roots of unity cannot be smaller than number of values')\<close>
  | RootsNotPowerOf2    \<comment> \<open>Error('Number of roots of unity must be 2^n')\<close>
  | XsYsMismatch        \<comment> \<open>Error('Number of x coordinates must be the same as number of y coordinates')\<close>
  | RootsYsMismatch     \<comment> \<open>Error('Number of roots of unity must be the same as number of y coordinates')\<close>
  | EngineTypeError     \<comment> \<open>TypeError of the runtime: \<open>undefined\<close> mixed with a bigint, or indexed\<close>
  | EngineRangeError    \<comment> \<open>RangeError of the runtime: invalid array length\<close>

subsection \<open>Basic arithmetic\<close>

definition modF :: "int \<Rightarrow> int \<Rightarrow> int" where
  "modF p v = (if v \<ge> 0 then v smod p else ((v smod p) + p) smod p)"

definition add :: "int \<Rightarrow> int \<Rightarrow> int \<Rightarrow> int" where
  "add p x y = modF p (x + y)"

definition sub :: "int \<Rightarrow> int \<Rightarrow> int \<Rightarrow> int" where
  "sub p x y = modF p (x - y)"

definition mul :: "int \<Rightarrow> int \<Rightarrow> int \<Rightarrow> int" where
  "mul p x y = modF p (x * y)"

text \<open>The \<open>while (low > 1n)\<close> loop of \<open>inv\<close>, on the variables \<open>lm\<close>, \<open>hm\<close>, \<open>low\<close>, \<open>high\<close>;
  it returns the final \<open>lm\<close>.\<close>

function inv_loop :: "int \<Rightarrow> int \<Rightarrow> int \<Rightarrow> int \<Rightarrow> int" where
  "inv_loop lm hm low high =
     (if low > 1 then
        (let r = high sdiv low;
             nm = hm - lm * r;
             nw = high - low * r
         in inv_loop nm lm nw low)
      else lm)"
  by pat_completeness auto
termination
proof (relation "measure (\<lambda>(lm, hm, low, high). nat low)", goal_cases)
  case 1
  show ?case by simp
next
  case (2 lm hm low high r nm nw)
  have "high - low * (high sdiv low) < low"
  proof (cases "0 \<le> high")
    case True
    with 2 have "high sdiv low = high div low"
      by (simp add: signed_divide_int_def sgn_if)
    moreover have "high - low * (high div low) = high mod low"
      by (simp add: minus_mult_div_eq_mod)
    moreover have "high mod low < low" using 2 by simp
    ultimately show ?thesis by simp
  next
    case False
    with 2 have e: "high sdiv low = - ((- high) div low)"
      by (simp add: signed_divide_int_def sgn_if)
    have m: "(- high) - low * ((- high) div low) = (- high) mod low"
      by (simp add: minus_mult_div_eq_mod)
    have n: "0 \<le> (- high) mod low" using 2 by simp
    have "high - low * (high sdiv low) = high + low * ((- high) div low)"
      by (simp add: e)
    with m n have "high - low * (high sdiv low) \<le> 0"
      by linarith
    with 2 show ?thesis by simp
  qed
  with 2 show ?case by simp
qed

declare inv_loop.simps [simp del]

definition invF :: "int \<Rightarrow> int \<Rightarrow> int" where
  "invF p a = (if a = 0 then a else modF p (inv_loop 1 0 (modF p a) p))"

definition divF :: "int \<Rightarrow> int \<Rightarrow> int \<Rightarrow> int" where
  "divF p x y = mul p x (invF p y)"

text \<open>The \<open>while (exponent > 0n)\<close> loop of \<open>exp\<close>, on \<open>base\<close>, \<open>exponent\<close> and \<open>result\<close>.\<close>

function exp_loop :: "int \<Rightarrow> int \<Rightarrow> int \<Rightarrow> int \<Rightarrow> int" where
  "exp_loop p base exponent result =
     (if exponent > 0 then
        (if base = 0 then 0
         else exp_loop p (mul p base base) (exponent sdiv 2)
                (if exponent smod 2 \<noteq> 0 then mul p result base else result))
      else result)"
  by pat_completeness auto
termination
  by (relation "measure (\<lambda>(p, base, exponent, result). nat exponent)")
     (auto simp: signed_divide_int_def sgn_if)

declare exp_loop.simps [simp del]

definition exp :: "int \<Rightarrow> int \<Rightarrow> int \<Rightarrow> error + int" where
  "exp p base exponent =
     (let base = modF p base in
      if base = 0 \<and> exponent = 0 then Inl ExpZeroZero
      else if exponent < 0 then Inr (exp_loop p (invF p base) (- exponent) 1)
      else Inr (exp_loop p base exponent 1))"

subsection \<open>Arrays and exceptions\<close>

text \<open>
  A \<open>Vector\<close> or \<open>Polynom\<close> is a JavaScript array of bigints, modelled as an \<open>int list\<close>.
  Reading an array outside its length yields \<open>undefined\<close> (\<open>None\<close> below). Arithmetic that
  mixes \<open>undefined\<close> with a bigint throws a TypeError, as does indexing \<open>undefined\<close>; both are
  \<open>EngineTypeError\<close>. (The product of two \<open>undefined\<close> is NaN and throws only when it next
  meets a bigint, which in every loop below happens before anything is returned.)
  A thrown exception is the left summand of the result type and is propagated by \<open>bindE\<close>.
\<close>

definition getAt :: "'a list \<Rightarrow> nat \<Rightarrow> 'a option" where
  "getAt xs i = (if i < length xs then Some (xs ! i) else None)"

definition bindE :: "error + 'a \<Rightarrow> ('a \<Rightarrow> error + 'b) \<Rightarrow> error + 'b" where
  "bindE m f = (case m of Inl e \<Rightarrow> Inl e | Inr v \<Rightarrow> f v)"

fun mapE :: "('a \<Rightarrow> error + 'b) \<Rightarrow> 'a list \<Rightarrow> error + 'b list" where
  "mapE f [] = Inr []"
| "mapE f (x # xs) =
     (case f x of
        Inl e \<Rightarrow> Inl e
      | Inr y \<Rightarrow> (case mapE f xs of Inl e \<Rightarrow> Inl e | Inr ys \<Rightarrow> Inr (y # ys)))"

definition need :: "int option \<Rightarrow> error + int" where
  "need v = (case v of None \<Rightarrow> Inl EngineTypeError | Some x \<Rightarrow> Inr x)"

definition jsMul :: "int option \<Rightarrow> int option \<Rightarrow> error + int" where
  "jsMul a b = bindE (need a) (\<lambda>x. bindE (need b) (\<lambda>y. Inr (x * y)))"

text \<open>
  Modelled from the spec: \<open>isPowerOf2\<close> is imported from \<open>./utils\<close>, which is not among the
  sources; the spec only says that the checked lengths and orders must be powers of two.
\<close>

fun isPowerOf2 :: "nat \<Rightarrow> bool" where
  "isPowerOf2 n = (if n \<le> 1 then n = 1 else even n \<and> isPowerOf2 (n div 2))"

declare isPowerOf2.simps [simp del]

subsection \<open>Vector operations\<close>

text \<open>
  The elementwise operations receive \<open>a[i]\<close>, always defined, and \<open>b[i]\<close>, which is
  \<open>undefined\<close> when \<open>b\<close> is shorter than \<open>a\<close>. \<open>add\<close>, \<open>sub\<close>, \<open>mul\<close> and \<open>div\<close> then throw;
  \<open>exp\<close> compares an \<open>undefined\<close> exponent with \<open>0n\<close> three times (all false) and returns 1.
\<close>

definition opAdd :: "int \<Rightarrow> int \<Rightarrow> int option \<Rightarrow> error + int" where
  "opAdd p x y = bindE (need y) (\<lambda>y. Inr (add p x y))"

definition opSub :: "int \<Rightarrow> int \<Rightarrow> int option \<Rightarrow> error + int" where
  "opSub p x y = bindE (need y) (\<lambda>y. Inr (sub p x y))"

definition opMul :: "int \<Rightarrow> int \<Rightarrow> int option \<Rightarrow> error + int" where
  "opMul p x y = bindE (need y) (\<lambda>y. Inr (mul p x y))"

definition opDiv :: "int \<Rightarrow> int \<Rightarrow> int option \<Rightarrow> error + int" where
  "opDiv p x y = bindE (need y) (\<lambda>y. Inr (divF p x y))"

definition opExp :: "int \<Rightarrow> int \<Rightarrow> int option \<Rightarrow> error + int" where
  "opExp p x y = (case y of None \<Rightarrow> Inr 1 | Some e \<Rightarrow> exp p x e)"

definition vectorElementsOp ::
  "(int \<Rightarrow> int option \<Rightarrow> error + int) \<Rightarrow> int list \<Rightarrow> int list \<Rightarrow> error + int list" where
  "vectorElementsOp op a b = mapE (\<lambda>i. op (a ! i) (getAt b i)) [0..<length a]"

definition vectorScalarOp ::
  "(int \<Rightarrow> int option \<Rightarrow> error + int) \<Rightarrow> int list \<Rightarrow> int \<Rightarrow> error + int list" where
  "vectorScalarOp op a b = mapE (\<lambda>i. op (a ! i) (Some b)) [0..<length a]"

text \<open>The second operand of the public elementwise operations: \<open>bigint | Vector\<close>.\<close>

datatype operand = Scalar int | Vec "int list"

definition addVectorElements :: "int \<Rightarrow> int list \<Rightarrow> operand \<Rightarrow> error + int list" where
  "addVectorElements p a b =
     (case b of Scalar s \<Rightarrow> vectorScalarOp (opAdd p) a s | Vec v \<Rightarrow> vectorElementsOp (opAdd p) a v)"

definition subVectorElements :: "int \<Rightarrow> int list \<Rightarrow> operand \<Rightarrow> error + int list" where
  "subVectorElements p a b =
     (case b of Scalar s \<Rightarrow> vectorScalarOp (opSub p) a s | Vec v \<Rightarrow> vectorElementsOp (opSub p) a v)"

definition mulVectorElements :: "int \<Rightarrow> int list \<Rightarrow> operand \<Rightarrow> error + int list" where
  "mulVectorElements p a b =
     (case b of Scalar s \<Rightarrow> vectorScalarOp (opMul p) a s | Vec v \<Rightarrow> vectorElementsOp (opMul p) a v)"

definition divVectorElements :: "int \<Rightarrow> int list \<Rightarrow> operand \<Rightarrow> error + int list" where
  "divVectorElements p a b =
     (case b of Scalar s \<Rightarrow> vectorScalarOp (opMul p) a (invF p s)
              | Vec v \<Rightarrow> vectorElementsOp (opDiv p) a v)"

definition expVectorElements :: "int \<Rightarrow> int list \<Rightarrow> operand \<Rightarrow> error + int list" where
  "expVectorElements p a b =
     (case b of Scalar s \<Rightarrow> vectorScalarOp (opExp p) a s | Vec v \<Rightarrow> vectorElementsOp (opExp p) a v)"

text \<open>
  \<open>invVectorElements\<close>: the first loop fills \<open>result[0], result[1], \<dots>\<close> in ascending order,
  so the fresh array \<open>new Array(n)\<close> is represented by its filled prefix; the second loop
  runs over the indices in descending order and overwrites in place. \<open>v || 1n\<close> is \<open>orOne\<close>.
\<close>

definition orOne :: "int \<Rightarrow> int" where
  "orOne v = (if v \<noteq> 0 then v else 1)"

definition inv_forward :: "int \<Rightarrow> int list \<Rightarrow> int list \<times> int" where
  "inv_forward p values =
     fold (\<lambda>i (result, last). (result @ [last], modF p (last * orOne (values ! i))))
       [0..<length values] ([], 1)"

definition inv_backward :: "int \<Rightarrow> int list \<Rightarrow> int list \<Rightarrow> int \<Rightarrow> int list \<times> int" where
  "inv_backward p values result inv0 =
     fold (\<lambda>i (result, inv).
             (result[i := modF p (if values ! i \<noteq> 0 then result ! i * inv else 0)],
              mul p inv (orOne (values ! i))))
       (rev [0..<length values]) (result, inv0)"

definition invVectorElements :: "int \<Rightarrow> int list \<Rightarrow> int list" where
  "invVectorElements p values =
     (let (result, last) = inv_forward p values
      in fst (inv_backward p values result (invF p last)))"

definition combineVectors :: "int \<Rightarrow> int list \<Rightarrow> int list \<Rightarrow> error + int" where
  "combineVectors p a b =
     fold (\<lambda>i acc. bindE acc (\<lambda>result.
             bindE (jsMul (Some (a ! i)) (getAt b i)) (\<lambda>t. Inr (modF p (result + t)))))
       [0..<length a] (Inr 0)"

subsection \<open>Matrix multiplication\<close>

text \<open>A \<open>Matrix\<close> is an array of rows. \<open>a[0].length\<close> and \<open>b[0].length\<close> throw on an empty
  array; \<open>a[i][k]\<close> and \<open>b[k][j]\<close> are \<open>undefined\<close> or throw outside the rows present.\<close>

definition getAt2 :: "int list list \<Rightarrow> nat \<Rightarrow> nat \<Rightarrow> error + int option" where
  "getAt2 m i j = (case getAt m i of None \<Rightarrow> Inl EngineTypeError | Some row \<Rightarrow> Inr (getAt row j))"

definition mulMatrixes :: "int \<Rightarrow> int list list \<Rightarrow> int list list \<Rightarrow> error + int list list" where
  "mulMatrixes p a b =
     (case getAt a 0 of None \<Rightarrow> Inl EngineTypeError | Some a0 \<Rightarrow>
     (case getAt b 0 of None \<Rightarrow> Inl EngineTypeError | Some b0 \<Rightarrow>
       (let n = length a; m = length a0; q = length b0 in
        mapE (\<lambda>i. mapE (\<lambda>j.
                fold (\<lambda>k acc. bindE acc (\<lambda>s.
                       bindE (getAt2 a i k) (\<lambda>x. bindE (getAt2 b k j) (\<lambda>y.
                       bindE (jsMul x y) (\<lambda>t. Inr (add p s (modF p t)))))))
                  [0..<m] (Inr 0))
              [0..<q])
          [0..<n])))"

subsection \<open>Power series and roots of unity\<close>

text \<open>
  \<open>getPowerSeries\<close> allocates \<open>new Array(length)\<close>, an array of \<open>length\<close> empty slots, and
  then assigns by index. Here the slots are explicit (\<open>None\<close> is an empty slot), because an
  assignment beyond the last index makes a JavaScript array longer.
\<close>

definition newArray :: "nat \<Rightarrow> int option list" where
  "newArray n = replicate n None"

definition setAt :: "int option list \<Rightarrow> nat \<Rightarrow> int \<Rightarrow> int option list" where
  "setAt xs i v =
     (if i < length xs then xs[i := Some v]
      else xs @ replicate (i - length xs) None @ [Some v])"

definition slot :: "int option list \<Rightarrow> nat \<Rightarrow> int option" where
  "slot xs i = (if i < length xs then xs ! i else None)"

definition getPowerSeries :: "int \<Rightarrow> int \<Rightarrow> nat \<Rightarrow> error + int option list" where
  "getPowerSeries p seed len =
     fold (\<lambda>i acc. bindE acc (\<lambda>powers.
             bindE (need (slot powers (i - 1))) (\<lambda>prev. Inr (setAt powers i (mul p prev seed)))))
       [1..<len] (Inr (setAt (newArray len) 0 1))"

text \<open>The \<open>for (let i = 2n; i < this.modulus; i++)\<close> search of \<open>getRootOfUnity\<close>. It is
  entered only for an order accepted by \<open>isPowerOf2\<close>, hence not 0, so that the division by
  \<open>bigOrder\<close> does not throw.\<close>

function rootSearch :: "int \<Rightarrow> nat \<Rightarrow> int \<Rightarrow> error + int" where
  "rootSearch p order i =
     (if i < p then
        (let bigOrder = int order in
         case exp p i ((p - 1) sdiv bigOrder) of
           Inl e \<Rightarrow> Inl e
         | Inr g \<Rightarrow>
           (case exp p g bigOrder of
              Inl e \<Rightarrow> Inl e
            | Inr a \<Rightarrow>
              if a = 1 then
                (case exp p g (bigOrder sdiv 2) of
                   Inl e \<Rightarrow> Inl e
                 | Inr b \<Rightarrow> if b \<noteq> 1 then Inr g else rootSearch p order (i + 1))
              else rootSearch p order (i + 1)))
      else Inl (RootNotFound order))"
  by pat_completeness auto
termination
  by (relation "measure (\<lambda>(p, order, i). nat (p - i))") auto

declare rootSearch.simps [simp del]

definition getRootOfUnity :: "int \<Rightarrow> nat \<Rightarrow> error + int" where
  "getRootOfUnity p order =
     (if \<not> isPowerOf2 order then Inl OrderNotPowerOf2 else rootSearch p order 2)"

text \<open>\<open>getPowerCycle\<close> loops until the running power is 1 again; it does not return when
  that never happens (\<open>None\<close>).\<close>

partial_function (option) powerCycle_loop :: "int \<Rightarrow> int \<Rightarrow> int \<Rightarrow> int list \<Rightarrow> int list option" where
  "powerCycle_loop p rootOfUnity v result =
     (if v \<noteq> 1 then powerCycle_loop p rootOfUnity (mul p v rootOfUnity) (result @ [v])
      else Some result)"

declare powerCycle_loop.simps [code]

definition getPowerCycle :: "int \<Rightarrow> int \<Rightarrow> int list option" where
  "getPowerCycle p rootOfUnity = powerCycle_loop p rootOfUnity rootOfUnity [1]"

subsection \<open>Polynomials\<close>

text \<open>
  \<open>evalPolyAt\<close> switches on the length of the polynomial; from six coefficients on it
  runs a loop on \<open>y\<close> and \<open>powerOfx\<close>.
\<close>

definition evalPolyAt :: "int \<Rightarrow> int list \<Rightarrow> int \<Rightarrow> int" where
  "evalPolyAt p poly x =
     (case poly of
        [] \<Rightarrow> 0
      | [c0] \<Rightarrow> c0
      | [c0, c1] \<Rightarrow> modF p (c0 + c1 * x)
      | [c0, c1, c2] \<Rightarrow> modF p (c0 + c1 * x + c2 * x * x)
      | [c0, c1, c2, c3] \<Rightarrow>
          (let x2 = x * x; x3 = x2 * x in modF p (c0 + c1 * x + c2 * x2 + c3 * x3))
      | [c0, c1, c2, c3, c4] \<Rightarrow>
          (let x2 = x * x; x3 = x2 * x
           in modF p (c0 + c1 * x + c2 * x2 + c3 * x3 + c4 * x3 * x))
      | _ \<Rightarrow>
          fst (fold (\<lambda>i (y, powerOfx). (modF p (y + poly ! i * powerOfx), mul p powerOfx x))
                 [0..<length poly] (0, 1)))"

text \<open>
  \<open>fastFF\<close> is private; both callers first check that \<open>roots.length\<close> is a power of two,
  so \<open>roots.length / step\<close> and \<open>resultLength / 2\<close> are exact. The base case always
  computes four outputs from \<open>values[offset + k * step]\<close>, \<open>k = 0..3\<close>.
\<close>

definition fastFF_base :: "int list \<Rightarrow> int list \<Rightarrow> nat \<Rightarrow> nat \<Rightarrow> int \<Rightarrow> nat \<Rightarrow> error + int" where
  "fastFF_base values roots step offset p i =
     bindE (jsMul (getAt values offset) (getAt roots 0)) (\<lambda>t0.
     bindE (jsMul (getAt values (offset + step)) (getAt roots (i * step))) (\<lambda>t1.
     bindE (jsMul (getAt values (offset + 2 * step)) (getAt roots ((i * 2) mod 4 * step))) (\<lambda>t2.
     bindE (jsMul (getAt values (offset + 3 * step)) (getAt roots ((i * 3) mod 4 * step))) (\<lambda>t3.
     Inr (modF p (t0 + t1 + t2 + t3))))))"

definition fastFF_combine ::
  "int list \<Rightarrow> int list \<Rightarrow> int list \<Rightarrow> nat \<Rightarrow> nat \<Rightarrow> int \<Rightarrow> error + int list" where
  "fastFF_combine evens odds roots step halfLength p =
     bindE (mapE (\<lambda>i. bindE (need (getAt evens i)) (\<lambda>x.
                         bindE (jsMul (getAt odds i) (getAt roots (i * step))) (\<lambda>yTimesRoot.
                         Inr (add p x yTimesRoot, sub p x yTimesRoot))))
              [0..<halfLength])
       (\<lambda>pairs. Inr (map fst pairs @ map snd pairs))"

function fastFF :: "int list \<Rightarrow> int list \<Rightarrow> nat \<Rightarrow> nat \<Rightarrow> int \<Rightarrow> error + int list" where
  "fastFF values roots depth offset p =
     (let step = 2 ^ depth;
          resultLength = length roots div step
      in if resultLength \<le> 4 then mapE (fastFF_base values roots step offset p) [0..<4]
         else
           (case fastFF values roots (depth + 1) offset p of
              Inl e \<Rightarrow> Inl e
            | Inr evens \<Rightarrow>
              (case fastFF values roots (depth + 1) (offset + step) p of
                 Inl e \<Rightarrow> Inl e
               | Inr odds \<Rightarrow> fastFF_combine evens odds roots step (resultLength div 2) p)))"
  by pat_completeness auto
termination
proof (relation "measure (\<lambda>(values, roots, depth, offset, p). length roots div 2 ^ depth)",
       goal_cases)
  case 1
  show ?case by simp
next
  case (2 vals roots depth offset p step resultLength)
  have "(2::nat) ^ (depth + 1) = 2 ^ depth * 2" by simp
  then have e: "length roots div 2 ^ (depth + 1) = length roots div 2 ^ depth div 2"
    by (simp only: div_mult2_eq)
  from 2 have "length roots div 2 ^ depth div 2 < length roots div 2 ^ depth"
    by simp
  then show ?case
    by (simp only: in_measure prod.case e)
next
  case (3 vals roots depth offset p step resultLength evens)
  have "(2::nat) ^ (depth + 1) = 2 ^ depth * 2" by simp
  then have e: "length roots div 2 ^ (depth + 1) = length roots div 2 ^ depth div 2"
    by (simp only: div_mult2_eq)
  from 3 have "length roots div 2 ^ depth div 2 < length roots div 2 ^ depth"
    by simp
  then show ?case
    by (simp only: in_measure prod.case e)
qed

declare fastFF.simps [simp del]

definition evalPolyAtRoots :: "int \<Rightarrow> int list \<Rightarrow> int list \<Rightarrow> error + int list" where
  "evalPolyAtRoots p poly rootsOfUnity =
     (if length poly > length rootsOfUnity then Inl TooFewRoots
      else if \<not> isPowerOf2 (length rootsOfUnity) then Inl RootsNotPowerOf2
      else
        (let values =
               (if length rootsOfUnity > length poly
                then poly @ replicate (length rootsOfUnity - length poly) 0
                else poly)
         in fastFF values rootsOfUnity 0 0 p))"

definition interpolateRoots :: "int \<Rightarrow> int list \<Rightarrow> int list \<Rightarrow> error + int list" where
  "interpolateRoots p rootsOfUnity ys =
     (if length rootsOfUnity \<noteq> length ys then Inl RootsYsMismatch
      else if \<not> isPowerOf2 (length rootsOfUnity) then Inl RootsNotPowerOf2
      else
        bindE (exp p (int (length ys)) (p - 2)) (\<lambda>invlen.
          (let n = length rootsOfUnity;
               reversedRoots = 1 # map (\<lambda>j. rootsOfUnity ! (n - j)) [1..<n]
           in bindE (fastFF ys reversedRoots 0 0 p) (\<lambda>result.
                Inr (map (\<lambda>r. modF p (r * invlen)) result)))))"

text \<open>
  \<open>zpoly\<close> writes its fresh array from the top index downwards: the slot \<open>result[p]\<close> is
  set to 0 at the start of round \<open>i\<close>, and only slots from \<open>p\<close> upwards are read. The array
  is represented by its filled suffix \<open>result[p..]\<close>, so the inner index \<open>j\<close> runs from 0.
\<close>

definition zpoly_round :: "int \<Rightarrow> int \<Rightarrow> int list \<Rightarrow> int list" where
  "zpoly_round p x result =
     fold (\<lambda>j r. r[j := modF p (r ! j - r ! (j + 1) * x)]) [0..<length result - 1] result"

definition zpoly :: "int list \<Rightarrow> int \<Rightarrow> int list" where
  "zpoly xs p = fold (\<lambda>i result. zpoly_round p (xs ! i) (0 # result)) [0..<length xs] [1]"

definition lastNonZeroIndex :: "int list \<Rightarrow> nat option" where
  "lastNonZeroIndex values = find (\<lambda>i. values ! i \<noteq> 0) (rev [0..<length values])"

text \<open>
  \<open>divPolys\<close>: \<open>apos - bpos\<close> is NaN when either polynomial has no non-zero coefficient, and
  \<open>new Array\<close> then throws a RangeError, as it does for a negative length. In the loop
  \<open>apos = diff + bpos\<close> and \<open>p = diff\<close> throughout; the quotient array is written from its
  last index downwards and is represented by its filled suffix.
\<close>

definition divPolys_step :: "int \<Rightarrow> int list \<Rightarrow> nat \<Rightarrow> nat \<Rightarrow> int list \<times> int list \<Rightarrow> int list \<times> int list" where
  "divPolys_step p b bpos diff st =
     (let (a, result) = st;
          quot = divF p (a ! (diff + bpos)) (b ! bpos);
          a' = fold (\<lambda>i a. a[diff + i := modF p (a ! (diff + i) - b ! i * quot)])
                 (rev [0..<bpos + 1]) a
      in (a', quot # result))"

definition divPolys :: "int \<Rightarrow> int list \<Rightarrow> int list \<Rightarrow> error + int list" where
  "divPolys p a b =
     (if length a < length b then Inl DivHigherOrder
      else
        (case lastNonZeroIndex a of
           None \<Rightarrow> Inl EngineRangeError
         | Some apos \<Rightarrow>
           (case lastNonZeroIndex b of
              None \<Rightarrow> Inl EngineRangeError
            | Some bpos \<Rightarrow>
              (let diff = int apos - int bpos
               in if diff + 1 < 0 then Inl EngineRangeError
                  else Inr (snd (fold (divPolys_step p b bpos)
                                   (rev [0..<nat (diff + 1)]) (a, [])))))))"

text \<open>The two nested accumulation loops of \<open>interpolate\<close>, over \<open>i < xs.length\<close> and
  \<open>j < ys.length\<close>, on the array \<open>result\<close> that starts filled with zeros.\<close>

definition interpolate_sum ::
  "int \<Rightarrow> int list list \<Rightarrow> int list \<Rightarrow> int list \<Rightarrow> nat \<Rightarrow> int list" where
  "interpolate_sum p numerators ys invertedDenominators n =
     fold (\<lambda>i result.
             (let ySlice = modF p (ys ! i * invertedDenominators ! i)
              in fold (\<lambda>j result.
                        if numerators ! i ! j \<noteq> 0 \<and> ys ! i \<noteq> 0
                        then result[j := modF p (result ! j + numerators ! i ! j * ySlice)]
                        else result)
                   [0..<length ys] result))
       [0..<n] (replicate (length ys) 0)"

definition interpolate :: "int \<Rightarrow> int list \<Rightarrow> int list \<Rightarrow> error + int list" where
  "interpolate p xs ys =
     (if length xs \<noteq> length ys then Inl XsYsMismatch
      else
        (let root = zpoly xs p in
         bindE (mapE (\<lambda>i. divPolys p root [- (xs ! i), 1]) [0..<length xs]) (\<lambda>numerators.
           (let denominators = map (\<lambda>i. evalPolyAt p (numerators ! i) (xs ! i)) [0..<length xs];
                invertedDenominators = invVectorElements p denominators
            in Inr (interpolate_sum p numerators ys invertedDenominators (length xs))))))"

subsection \<open>Prime moduli\<close>

text \<open>The spec assumes a prime modulus; primality is decided by trial division.\<close>

definition is_prime :: "int \<Rightarrow> bool" where
  "is_prime p = (1 < p \<and> list_all (\<lambda>d. \<not> d dvd p) [2..p - 1])"

subsection \<open>Notions used in the proofs\<close>

text \<open>The running product of the forward pass of \<open>invVectorElements\<close>: the first \<open>i\<close>
  entries, zeros replaced by 1, multiplied modulo \<open>p\<close>.\<close>

definition pprod :: "int \<Rightarrow> int list \<Rightarrow> nat \<Rightarrow> int" where
  "pprod p vs i = (\<Prod>j<i. orOne (vs ! j)) mod p"

text \<open>
  Polynomials over the integers, in the representation of the code (index \<open>i\<close> holds the
  coefficient of \<open>x^i\<close>): the value \<open>pev q x\<close> of a polynomial, its coefficient function
  \<open>cf\<close>, the product \<open>mulLin x t\<close> of \<open>t\<close> with the linear factor \<open>X - x\<close>, the vanishing
  polynomial \<open>zspec xs\<close> of a list of nodes, and coefficientwise reduction modulo \<open>p\<close>.
\<close>

definition pev :: "int list \<Rightarrow> int \<Rightarrow> int" where
  "pev q x = (\<Sum>j<length q. q ! j * x ^ j)"

definition cf :: "int list \<Rightarrow> nat \<Rightarrow> int" where
  "cf t j = (if j < length t then t ! j else 0)"

definition mulLin :: "int \<Rightarrow> int list \<Rightarrow> int list" where
  "mulLin x t =
     map (\<lambda>j. (if j = 0 then 0 else cf t (j - 1)) - cf t j * x) [0..<Suc (length t)]"

definition zspec :: "int list \<Rightarrow> int list" where
  "zspec xs = fold mulLin xs [1]"

definition reduce :: "int \<Rightarrow> int list \<Rightarrow> int list" where
  "reduce p t = map (\<lambda>c. c mod p) t"

text \<open>
  The Horner sequence of a polynomial at a point \<open>a\<close> (its head is the value at \<open>a\<close>, its
  tail the quotient by \<open>X - a\<close>), and the coefficients of \<open>X^m - 1\<close>.
\<close>

fun horner :: "int \<Rightarrow> int list \<Rightarrow> int list" where
  "horner a [] = []"
| "horner a (c # q) = (c + a * cf (horner a q) 0) # horner a q"

definition xpow_minus_one :: "nat \<Rightarrow> int list" where
  "xpow_minus_one m = (- 1) # replicate (m - 1) 0 @ [1]"

section \<open>Properties\<close>

subsection \<open>Reduction modulo the field modulus\<close>

lemma sdiv_nonneg: "0 \<le> a \<Longrightarrow> 0 < b \<Longrightarrow> a sdiv b = a div (b::int)"
  by (simp add: signed_divide_int_def sgn_if)

lemma smod_nonneg: "0 \<le> a \<Longrightarrow> 0 < b \<Longrightarrow> a smod b = a mod (b::int)"
  by (simp add: signed_modulo_int_def sgn_if)

lemma smod_neg: "a < 0 \<Longrightarrow> 0 < b \<Longrightarrow> a smod b = - ((- a) mod (b::int))"
  by (simp add: signed_modulo_int_def sgn_if)

lemma modF_eq: "0 < p \<Longrightarrow> modF p v = v mod p"
proof (cases "0 \<le> v")
  case True
  assume "0 < p"
  with True show ?thesis by (simp add: modF_def smod_nonneg)
next
  case False
  assume p: "0 < p"
  let ?m = "(- v) mod p"
  have m: "0 \<le> ?m" "?m < p" using p by simp_all
  from False p have "v smod p = - ?m" by (simp add: smod_neg)
  then have "modF p v = (p - ?m) smod p" using False by (simp add: modF_def)
  also have "\<dots> = (p - ?m) mod p"
  proof (rule smod_nonneg)
    show "0 \<le> p - ?m" using m by linarith
    show "0 < p" by (rule p)
  qed
  also have "\<dots> = (- ?m) mod p"
    by (metis mod_add_self2 uminus_add_conv_diff)
  also have "\<dots> = v mod p" by (simp add: mod_minus_eq)
  finally show ?thesis .
qed

lemma modF_range: "0 < p \<Longrightarrow> 0 \<le> modF p v \<and> modF p v < p"
  by (simp add: modF_eq)

lemma modF_id: "0 \<le> v \<Longrightarrow> v < p \<Longrightarrow> modF p v = v"
  by (simp add: modF_eq)

lemma mul_eq: "0 < p \<Longrightarrow> mul p x y = (x * y) mod p"
  by (simp add: mul_def modF_eq)

lemma invF_range: "0 < p \<Longrightarrow> 0 \<le> invF p a \<and> invF p a < p"
  by (simp add: invF_def modF_range)

lemma exp_loop_range:
  "0 < p \<Longrightarrow> 0 \<le> r \<Longrightarrow> r < p \<Longrightarrow> 0 \<le> exp_loop p b e r \<and> exp_loop p b e r < p"
proof (induction p b e r rule: exp_loop.induct)
  case (1 p base exponent result)
  show ?case
  proof (cases "exponent > 0 \<and> base \<noteq> 0")
    case True
    let ?r = "if exponent smod 2 \<noteq> 0 then mul p result base else result"
    have "0 \<le> ?r \<and> ?r < p"
      using 1(2-4) by (simp add: mul_def modF_range)
    with 1(1) True 1(2) have
      "0 \<le> exp_loop p (mul p base base) (exponent sdiv 2) ?r \<and>
       exp_loop p (mul p base base) (exponent sdiv 2) ?r < p"
      by blast
    with True show ?thesis
      by (subst (1 2) exp_loop.simps) simp
  next
    case False
    with 1(2-4) show ?thesis
      by (subst (1 2) exp_loop.simps) auto
  qed
qed

text \<open>
  C10. For a modulus \<open>p > 1\<close> and arbitrary integers \<open>x\<close>, \<open>y\<close> (negative or beyond the
  modulus included), \<open>mod\<close>, \<open>add\<close>, \<open>sub\<close>, \<open>mul\<close>, \<open>div\<close> and \<open>inv\<close> return a value in
  \<open>[0, p)\<close>, and so does \<open>exp\<close> whenever it does not throw.
\<close>

theorem results_canonical:
  assumes "1 < p"
  shows "(0 \<le> modF p x \<and> modF p x < p)
       \<and> (0 \<le> add p x y \<and> add p x y < p)
       \<and> (0 \<le> sub p x y \<and> sub p x y < p)
       \<and> (0 \<le> mul p x y \<and> mul p x y < p)
       \<and> (0 \<le> divF p x y \<and> divF p x y < p)
       \<and> (0 \<le> invF p x \<and> invF p x < p)
       \<and> (\<forall>r. exp p x y = Inr r \<longrightarrow> 0 \<le> r \<and> r < p)"
proof -
  from assms have p: "0 < p" by simp
  have inv: "0 \<le> invF p a \<and> invF p a < p" for a
    using p by (rule invF_range)
  have e: "0 \<le> exp_loop p b e 1 \<and> exp_loop p b e 1 < p" for b e
    using exp_loop_range [of p 1 b e] assms by simp
  have "\<forall>r. exp p x y = Inr r \<longrightarrow> 0 \<le> r \<and> r < p"
    using e by (auto simp: exp_def Let_def split: if_splits)
  with p inv show ?thesis
    by (simp add: add_def sub_def mul_def divF_def modF_range)
qed

theorem results_canonical_witness:
  "(1::int) < 7
 \<and> (0 \<le> modF 7 (-3) \<and> modF 7 (-3) < 7)
 \<and> (0 \<le> add 7 (-3) 12 \<and> add 7 (-3) 12 < 7)
 \<and> (0 \<le> sub 7 (-3) 12 \<and> sub 7 (-3) 12 < 7)
 \<and> (0 \<le> mul 7 (-3) 12 \<and> mul 7 (-3) 12 < 7)
 \<and> (0 \<le> divF 7 (-3) 12 \<and> divF 7 (-3) 12 < 7)
 \<and> (0 \<le> invF 7 (-3) \<and> invF 7 (-3) < 7)
 \<and> exp 7 (-3) 12 = Inr 1"
proof -
  have e: "exp 7 (-3) 12 = Inr 1"
    by code_simp
  show ?thesis
    using results_canonical [of 7 "-3" 12] e by simp
qed

subsection \<open>Operands of unequal shape\<close>

text \<open>
  C6. Operands of unequal shape are to be rejected with a dimension-mismatch error, as
  the engine \<open>Wasm128\<close> does. \<open>PrimeField\<close> has no such check: when the second operand is
  the larger one, the surplus is ignored and a result is returned. In GF(17),
  \<open>combineVectors([1], [1, 2])\<close> returns 1, \<open>addVectorElements([1], [1, 2])\<close> returns \<open>[2]\<close>,
  and \<open>mulMatrixes\<close> of a \<open>1 \<times> 1\<close> by a \<open>2 \<times> 1\<close> matrix returns a \<open>1 \<times> 1\<close> matrix.
\<close>

theorem unequal_shapes_accepted:
  "combineVectors 17 [1] [1, 2] = Inr 1
   \<and> addVectorElements 17 [1] (Vec [1, 2]) = Inr [2]
   \<and> mulMatrixes 17 [[1]] [[1], [1]] = Inr [[1]]"
  by (simp add: combineVectors_def addVectorElements_def vectorElementsOp_def opAdd_def
      mulMatrixes_def getAt2_def add_def modF_def signed_modulo_int_def
      jsMul_def need_def getAt_def bindE_def upt_rec)

text \<open>When the second operand is the shorter one, the missing entries are \<open>undefined\<close>:
  the arithmetic throws a TypeError, except for \<open>exp\<close>, which returns 1 for a missing exponent.\<close>

lemma shorter_second_operand:
  "combineVectors 17 [1, 2] [1] = Inl EngineTypeError
   \<and> addVectorElements 17 [1, 2] (Vec [1]) = Inl EngineTypeError
   \<and> expVectorElements 17 [1, 2] (Vec [1]) = Inr [1, 1]"
  by code_simp

subsection \<open>Fourier transforms on domains shorter than four\<close>

text \<open>
  C8. The transform of a one-coefficient polynomial over a one-element domain is to
  return the polynomial. The base case of \<open>fastFF\<close> reads \<open>values[offset + step]\<close>, which is
  \<open>undefined\<close> here, and multiplies it with a bigint: for every modulus, coefficient and
  root, \<open>evalPolyAtRoots\<close> throws a TypeError.
\<close>

theorem evalPolyAtRoots_length1_throws:
  "evalPolyAtRoots p [c] [r] = Inl EngineTypeError"
  by (simp add: evalPolyAtRoots_def isPowerOf2.simps fastFF.simps [of _ _ 0] fastFF_base_def
      jsMul_def need_def getAt_def bindE_def upt_rec)

text \<open>
  C1. The round trip through \<open>evalPolyAtRoots\<close> and \<open>interpolateRoots\<close> is to return the
  padded polynomial for every power of two \<open>n\<close>. For \<open>n = 2\<close> in GF(17) the primitive root
  is 16, its power cycle is \<open>[1, 16]\<close>, and the transform of \<open>[3, 5]\<close> throws a TypeError in
  the base case of \<open>fastFF\<close>, so that nothing is returned.
\<close>

theorem roundtrip_length2_throws:
  "getPowerCycle 17 16 = Some [1, 16]
   \<and> bindE (evalPolyAtRoots 17 [3, 5] [1, 16]) (interpolateRoots 17 [1, 16])
       = Inl EngineTypeError"
  by (simp add: getPowerCycle_def powerCycle_loop.simps mul_def modF_def signed_modulo_int_def
      evalPolyAtRoots_def isPowerOf2.simps fastFF.simps [of _ _ 0] fastFF_base_def
      jsMul_def need_def getAt_def bindE_def upt_rec)

text \<open>On domains of length 4 and 8 the round trip does return the padded polynomial.\<close>

lemma roundtrip_length4: "getPowerCycle 17 4 = Some [1, 4, 16, 13]
  \<and> bindE (evalPolyAtRoots 17 [1, 2, 3, 4] [1, 4, 16, 13]) (interpolateRoots 17 [1, 4, 16, 13])
      = Inr [1, 2, 3, 4]"
  by code_simp

lemma roundtrip_length8: "getPowerCycle 17 2 = Some [1, 2, 4, 8, 16, 15, 13, 9]
  \<and> bindE (evalPolyAtRoots 17 [1, 2, 3, 4, 5] [1, 2, 4, 8, 16, 15, 13, 9])
        (interpolateRoots 17 [1, 2, 4, 8, 16, 15, 13, 9])
      = Inr [1, 2, 3, 4, 5, 0, 0, 0]"
  by code_simp

subsection \<open>Power series of length zero\<close>

text \<open>
  C9. \<open>getPowerSeries(s, n)\<close> is to have length exactly \<open>n\<close> for every \<open>n \<ge> 0\<close>. For
  \<open>n = 0\<close> the assignment \<open>powers[0] = 1n\<close> extends the empty array: the result is \<open>[1]\<close>,
  of length 1, for every modulus and seed.
\<close>

theorem getPowerSeries_zero_length:
  "getPowerSeries p s 0 = Inr [Some 1]"
  by (simp add: getPowerSeries_def newArray_def setAt_def)

text \<open>For every length \<open>n \<ge> 1\<close> the result has length \<open>n\<close> and holds the powers of the seed.\<close>

lemma getPowerSeries_prefix:
  assumes "1 < p"
  shows "Suc d \<le> n \<Longrightarrow>
    fold (\<lambda>i acc. bindE acc (\<lambda>powers.
             bindE (need (slot powers (i - 1))) (\<lambda>prev. Inr (setAt powers i (mul p prev s)))))
       [1..<Suc d] (Inr (setAt (newArray n) 0 1))
    = Inr (map (\<lambda>i. Some (s ^ i mod p)) [0..<Suc d] @ replicate (n - Suc d) None)"
proof (induction d)
  case 0
  then obtain n' where "n = Suc n'" by (cases n) simp_all
  with assms show ?case by (simp add: setAt_def newArray_def)
next
  case (Suc d)
  from assms have p: "0 < p" by simp
  let ?A = "map (\<lambda>i. Some (s ^ i mod p)) [0..<Suc d] @ replicate (n - Suc d) None"
  let ?F = "\<lambda>i acc. bindE acc (\<lambda>powers.
             bindE (need (slot powers (i - 1))) (\<lambda>prev. Inr (setAt powers i (mul p prev s))))"
  from Suc have IH: "fold ?F [1..<Suc d] (Inr (setAt (newArray n) 0 1)) = Inr ?A" by simp
  have len: "length ?A = n" using Suc(2) by simp
  have prev: "slot ?A d = Some (s ^ d mod p)"
    using Suc(2) by (simp add: slot_def nth_append del: upt_Suc)
  have "n - Suc d = Suc (n - Suc (Suc d))" using Suc(2) by simp
  then have upd: "?A[Suc d := Some v] =
      map (\<lambda>i. Some (s ^ i mod p)) [0..<Suc d] @ Some v # replicate (n - Suc (Suc d)) None" for v
    by (simp add: list_update_append del: upt_Suc)
  have "fold ?F [1..<Suc (Suc d)] (Inr (setAt (newArray n) 0 1)) = ?F (Suc d) (Inr ?A)"
    using IH by (simp del: upt_Suc add: upt_Suc_append)
  also have "\<dots> = Inr (setAt ?A (Suc d) (mul p (s ^ d mod p) s))"
    using prev by (simp add: bindE_def need_def del: upt_Suc)
  also have "setAt ?A (Suc d) (mul p (s ^ d mod p) s) = ?A[Suc d := Some (s ^ Suc d mod p)]"
    using Suc(2) len p by (simp add: setAt_def mul_eq mod_mult_right_eq mult.commute del: upt_Suc)
  also have "\<dots> = map (\<lambda>i. Some (s ^ i mod p)) [0..<Suc (Suc d)] @ replicate (n - Suc (Suc d)) None"
    by (simp only: upd) (simp del: power_Suc)
  finally show ?case .
qed

lemma getPowerSeries_positive:
  assumes "1 < p" "0 < n"
  shows "getPowerSeries p s n = Inr (map (\<lambda>i. Some (s ^ i mod p)) [0..<n])"
proof -
  from assms(2) obtain d where n: "n = Suc d" by (cases n) simp_all
  show ?thesis
    unfolding getPowerSeries_def n
    using getPowerSeries_prefix [OF assms(1), of d "Suc d" s] by simp
qed

subsection \<open>The root of unity of order one\<close>

lemma exp_loop_zero: "exp_loop p b 0 r = r"
  by (subst exp_loop.simps) simp

lemma exp_one: "0 < p \<Longrightarrow> exp p g 1 = Inr (g mod p)"
  by (simp add: exp_def Let_def exp_loop.simps [of p _ 1] exp_loop_zero mul_def modF_eq
      signed_divide_int_def signed_modulo_int_def)

lemma exp_zero: "0 < p \<Longrightarrow> g mod p \<noteq> 0 \<Longrightarrow> exp p g 0 = Inr 1"
  by (simp add: exp_def Let_def exp_loop_zero modF_eq)

lemma exp_no_error: "modF p b \<noteq> 0 \<Longrightarrow> \<exists>r. exp p b e = Inr r"
  by (simp add: exp_def Let_def)

text \<open>For order 1 the test \<open>exp(g, 1) = 1 && exp(g, 0) \<noteq> 1\<close> fails for every candidate,
  since \<open>exp(g, 0)\<close> is 1 whenever \<open>g\<close> is.\<close>

lemma rootSearch_order1:
  "order = 1 \<Longrightarrow> 2 \<le> i \<Longrightarrow> rootSearch p order i = Inl (RootNotFound 1)"
proof (induction p order i rule: rootSearch.induct)
  case (1 p order i)
  show ?case
  proof (cases "i < p")
    case False
    with 1(3) show ?thesis by (subst rootSearch.simps) simp
  next
    case True
    with 1(4) have p: "0 < p" and ib: "modF p i \<noteq> 0" by (simp_all add: modF_id)
    from ib obtain g where g: "exp p i ((p - 1) sdiv int order) = Inr g"
      using exp_no_error by blast
    have a: "exp p g (int order) = Inr (g mod p)"
      using p 1(3) by (simp add: exp_one)
    have nxt: "rootSearch p order (i + 1) = Inl (RootNotFound 1)"
    proof (cases "g mod p = 1")
      case False
      with 1(2) [OF True refl g a] 1(3,4) show ?thesis by simp
    next
      case one: True
      then have b: "exp p g (int order sdiv 2) = Inr 1"
        using p 1(3) by (simp add: exp_zero signed_divide_int_def)
      from 1(1) [OF True refl g a one b] 1(3,4) show ?thesis by simp
    qed
    show ?thesis
      using True g a nxt 1(3)
      by (subst rootSearch.simps) (simp add: Let_def exp_zero p signed_divide_int_def)
  qed
qed

text \<open>
  For order 1 the search therefore ends with the error 'Root of Unity for order 1 was not
  found', whatever the modulus: the value 1 is never returned.
\<close>

lemma getRootOfUnity_order1_not_found:
  "getRootOfUnity p 1 = Inl (RootNotFound 1)"
  by (simp add: getRootOfUnity_def isPowerOf2.simps rootSearch_order1)

subsection \<open>Primes and the extended Euclidean inverse\<close>

lemma is_prime_gt1: "is_prime p \<Longrightarrow> 1 < p"
  by (simp add: is_prime_def)

lemma is_prime_divisor:
  assumes "is_prime p" "d dvd p" "0 \<le> d"
  shows "d = 1 \<or> d = p"
proof -
  from assms(1) have p: "1 < p" by (rule is_prime_gt1)
  from assms(2) p have "d \<noteq> 0" by auto
  with assms(3) have d: "0 < d" by simp
  from assms(2) p d have le: "d \<le> p" using dvd_imp_le_int [of p d] by simp
  show ?thesis
  proof (rule ccontr)
    assume "\<not> (d = 1 \<or> d = p)"
    with d le have "d \<in> set [2..p - 1]" by auto
    with assms(1) have "\<not> d dvd p" by (simp add: is_prime_def list_all_iff)
    with assms(2) show False by simp
  qed
qed

lemma is_prime_coprime:
  assumes "is_prime p" "\<not> p dvd a"
  shows "coprime a p"
proof -
  have "gcd a p dvd p" "0 \<le> gcd a p" by simp_all
  with assms(1) have "gcd a p = 1 \<or> gcd a p = p" by (rule is_prime_divisor)
  moreover have "gcd a p \<noteq> p"
  proof
    assume "gcd a p = p"
    then have "p dvd a" by (metis gcd_dvd1)
    with assms(2) show False by simp
  qed
  ultimately show ?thesis by (simp add: coprime_iff_gcd_eq_1)
qed

lemma is_prime_dvd_mult:
  assumes "is_prime p" "p dvd a * b"
  shows "p dvd a \<or> p dvd b"
proof (cases "p dvd b")
  case False
  with assms(1) have "coprime p b" using is_prime_coprime coprime_commute by blast
  with assms(2) show ?thesis by (simp add: coprime_dvd_mult_left_iff)
qed simp

lemma inv_loop_correct:
  assumes "0 < p"
  shows "0 < low \<Longrightarrow> 0 \<le> high \<Longrightarrow> coprime low high
     \<Longrightarrow> (lm * a) mod p = low mod p \<Longrightarrow> (hm * a) mod p = high mod p
     \<Longrightarrow> (inv_loop lm hm low high * a) mod p = 1 mod p"
proof (induction lm hm low high rule: inv_loop.induct)
  case (1 lm hm low high)
  show ?case
  proof (cases "low > 1")
    case False
    with 1(2) have "low = 1" by simp
    with 1(5) False show ?thesis by (subst inv_loop.simps) simp
  next
    case True
    let ?r = "high sdiv low"
    let ?nm = "hm - lm * ?r"
    let ?nw = "high - low * ?r"
    have r: "?r = high div low" using 1(2,3) by (simp add: sdiv_nonneg)
    have nw: "?nw = high mod low" by (simp add: r minus_mult_div_eq_mod)
    have cop: "coprime ?nw low" using 1(4) True
      by (simp add: nw coprime_commute)
    have "?nw \<noteq> 0"
    proof
      assume "?nw = 0"
      with cop have "is_unit low" by simp
      with True show False by simp
    qed
    moreover have "0 \<le> ?nw" using True by (simp add: nw)
    ultimately have pos: "0 < ?nw" by simp
    have "(?nm * a) mod p = (hm * a - (lm * a) * ?r) mod p"
      by (simp add: algebra_simps)
    also have "\<dots> = (high - low * ?r) mod p"
      using 1(5,6) by (metis mod_diff_cong mod_mult_cong mult.commute)
    finally have cong: "(?nm * a) mod p = ?nw mod p" .
    have "(inv_loop ?nm lm ?nw low * a) mod p = 1 mod p"
      using 1(1) [OF True refl refl refl pos _ cop cong 1(5)] 1(2) by simp
    with True show ?thesis by (subst inv_loop.simps) (simp add: Let_def)
  qed
qed

lemma invF_correct:
  assumes "is_prime p" "0 < x" "x < p"
  shows "0 \<le> invF p x \<and> invF p x < p \<and> mul p x (invF p x) = 1"
proof -
  from assms(1) have p1: "1 < p" by (rule is_prime_gt1)
  then have p: "0 < p" by simp
  have "\<not> p dvd x" using assms(2,3) by (simp add: zdvd_not_zless)
  with assms(1) have cop: "coprime x p" by (rule is_prime_coprime)
  have mx: "modF p x = x" using assms(2,3) by (simp add: modF_id)
  let ?l = "inv_loop 1 0 x p"
  have "(?l * x) mod p = 1 mod p"
    using p assms(2) cop by (intro inv_loop_correct) simp_all
  then have l: "(?l * x) mod p = 1" using p1 by simp
  have i: "invF p x = ?l mod p" using assms(2) p by (simp add: invF_def mx modF_eq)
  have "mul p x (invF p x) = (x * (?l mod p)) mod p" using p by (simp add: mul_eq i)
  also have "\<dots> = (?l * x) mod p" by (simp add: mod_mult_right_eq mult.commute)
  finally have "mul p x (invF p x) = 1" using l by simp
  with p show ?thesis by (simp add: i)
qed

text \<open>
  C3. For a prime modulus \<open>p\<close>, \<open>inv(0) = 0\<close>, and for every \<open>x\<close> with \<open>0 < x < p\<close> the
  value \<open>inv(x)\<close> lies in \<open>[0, p)\<close> and \<open>mul(x, inv(x)) = 1\<close>.
\<close>

theorem inv_spec:
  assumes "is_prime p"
  shows "invF p 0 = 0
       \<and> (\<forall>x. 0 < x \<and> x < p \<longrightarrow> 0 \<le> invF p x \<and> invF p x < p \<and> mul p x (invF p x) = 1)"
  using invF_correct [OF assms] by (simp add: invF_def)

lemma is_prime_7: "is_prime 7"
  by code_simp

theorem inv_spec_witness:
  "invF 7 0 = 0 \<and> 0 \<le> invF 7 3 \<and> invF 7 3 < 7 \<and> mul 7 3 (invF 7 3) = 1"
  using inv_spec [OF is_prime_7] by simp


subsection \<open>Exponentiation by squaring\<close>

lemma sq_power_mod:
  fixes b p :: int
  shows "(r * ((b * b) mod p) ^ k) mod p = (r * b ^ (2 * k)) mod p"
proof -
  have "(r * ((b * b) mod p) ^ k) mod p = (r * (((b * b) mod p) ^ k mod p)) mod p"
    by (simp add: mod_mult_right_eq)
  also have "\<dots> = (r * ((b * b) ^ k mod p)) mod p"
    by (simp only: power_mod)
  also have "\<dots> = (r * (b * b) ^ k) mod p"
    by (simp add: mod_mult_right_eq)
  also have "(b * b) ^ k = b ^ (2 * k)"
    by (simp add: power_mult power2_eq_square)
  finally show ?thesis .
qed

lemma exp_loop_correct:
  "0 < p \<Longrightarrow> 0 \<le> r \<Longrightarrow> r < p \<Longrightarrow> exp_loop p b e r = (r * b ^ nat e) mod p"
proof (induction p b e r rule: exp_loop.induct)
  case (1 p base exponent result)
  show ?case
  proof (cases "exponent > 0")
    case False
    with 1(3,4) show ?thesis by (subst exp_loop.simps) simp
  next
    case pos: True
    show ?thesis
    proof (cases "base = 0")
      case True
      with pos 1(2) show ?thesis by (subst exp_loop.simps) (simp add: zero_power)
    next
      case False
      let ?k = "nat (exponent div 2)"
      let ?r = "if exponent smod 2 \<noteq> 0 then mul p result base else result"
      have d: "exponent sdiv 2 = exponent div 2" and m: "exponent smod 2 = exponent mod 2"
        using pos by (simp_all add: sdiv_nonneg smod_nonneg)
      have rr: "0 \<le> ?r" "?r < p" using 1(2-4) by (simp_all add: mul_def modF_range)
      have "exp_loop p base exponent result = exp_loop p (mul p base base) (exponent sdiv 2) ?r"
        using pos False by (subst exp_loop.simps) simp
      also have "\<dots> = (?r * (mul p base base) ^ nat (exponent sdiv 2)) mod p"
        using 1(1) [OF pos False 1(2) rr] .
      also have "\<dots> = (?r * base ^ (2 * ?k)) mod p"
        using 1(2) by (simp only: d mul_eq sq_power_mod)
      also have "\<dots> = (result * base ^ nat exponent) mod p"
      proof (cases "exponent mod 2 = 0")
        case True
        then have "2 * (exponent div 2) = exponent"
          using mult_div_mod_eq [of 2 exponent] by simp
        then have "nat exponent = nat (2 * (exponent div 2))" by simp
        then have "nat exponent = 2 * ?k" by (simp add: nat_mult_distrib)
        with True show ?thesis by (simp add: m)
      next
        case False
        then have "exponent mod 2 = 1" by presburger
        then have "2 * (exponent div 2) + 1 = exponent"
          using mult_div_mod_eq [of 2 exponent] by simp
        then have "nat exponent = nat (2 * (exponent div 2) + 1)" by simp
        also have "\<dots> = Suc (2 * ?k)"
          using pos by (simp add: nat_add_distrib nat_mult_distrib pos_imp_zdiv_nonneg_iff)
        finally have n: "nat exponent = Suc (2 * ?k)" .
        have "(mul p result base * base ^ (2 * ?k)) mod p = (result * base * base ^ (2 * ?k)) mod p"
          using 1(2) by (simp add: mul_eq mod_mult_left_eq)
        with False show ?thesis by (simp add: m n mult.assoc)
      qed
      finally show ?thesis .
    qed
  qed
qed

lemma power_mult_inverse:
  fixes a b p :: int
  assumes "(a * b) mod p = 1" "1 < p"
  shows "((a ^ n mod p) * b ^ n) mod p = 1"
proof -
  have "((a ^ n mod p) * b ^ n) mod p = ((a * b) ^ n) mod p"
    by (simp add: mod_mult_left_eq power_mult_distrib)
  also have "\<dots> = ((a * b) mod p) ^ n mod p"
    by (simp only: power_mod)
  finally show ?thesis using assms by simp
qed

text \<open>
  C4. For a prime modulus and a field element \<open>b\<close> in \<open>[0, p)\<close>: \<open>exp(b, e)\<close> throws exactly
  when \<open>b = 0\<close> and \<open>e = 0\<close>; it returns 0 for \<open>b = 0\<close>, \<open>e > 0\<close>; it returns 1 for \<open>e = 0\<close>,
  \<open>b \<noteq> 0\<close>; for \<open>e < 0\<close> it returns what \<open>exp(inv(b), -e)\<close> returns. The result is
  \<open>b^e mod p\<close>: for \<open>e \<ge> 0\<close> the power itself, for \<open>e < 0\<close> the power \<open>inv(b)^(-e) mod p\<close>, which
  for \<open>b \<noteq> 0\<close> is the field inverse of \<open>b^(-e)\<close>.
\<close>

theorem exp_spec:
  assumes "is_prime p" "0 \<le> b" "b < p"
  shows "((\<exists>err. exp p b e = Inl err) \<longleftrightarrow> b = 0 \<and> e = 0)
       \<and> (b = 0 \<and> e > 0 \<longrightarrow> exp p b e = Inr 0)
       \<and> (e = 0 \<and> b \<noteq> 0 \<longrightarrow> exp p b e = Inr 1)
       \<and> (e < 0 \<longrightarrow> exp p b e = exp p (invF p b) (- e))
       \<and> (0 \<le> e \<and> \<not> (b = 0 \<and> e = 0) \<longrightarrow> exp p b e = Inr (b ^ nat e mod p))
       \<and> (e < 0 \<longrightarrow> exp p b e = Inr (invF p b ^ nat (- e) mod p))
       \<and> (e < 0 \<and> b \<noteq> 0 \<longrightarrow> (\<exists>r. exp p b e = Inr r \<and> (r * b ^ nat (- e)) mod p = 1))"
proof -
  from assms(1) have p1: "1 < p" by (rule is_prime_gt1)
  then have p: "0 < p" by simp
  have mb: "modF p b = b" using assms(2,3) by (rule modF_id)
  have ir: "0 \<le> invF p b" "invF p b < p"
    using invF_range [OF p, of b] by simp_all
  then have mi: "modF p (invF p b) = invF p b" by (simp add: modF_id)
  have loop: "exp_loop p c k 1 = (c ^ nat k) mod p" for c k
    using exp_loop_correct [of p 1 c k] p1 by simp
  have nonneg: "exp p b e = Inr (b ^ nat e mod p)" if "0 \<le> e" "\<not> (b = 0 \<and> e = 0)"
    using that by (simp add: exp_def mb loop)
  have neg: "exp p b e = Inr (invF p b ^ nat (- e) mod p)" if "e < 0"
    using that by (simp add: exp_def mb loop)
  have flip: "exp p b e = exp p (invF p b) (- e)" if "e < 0"
    using that by (simp add: exp_def mb mi)
  have err: "(\<exists>err. exp p b e = Inl err) \<longleftrightarrow> b = 0 \<and> e = 0"
    by (auto simp: exp_def mb)
  have zero: "exp p b e = Inr 0" if "b = 0" "e > 0"
  proof -
    from that have "exp p b e = Inr (b ^ nat e mod p)" by (intro nonneg) simp_all
    also have "b ^ nat e mod p = 0" using that by (simp add: zero_power)
    finally show ?thesis .
  qed
  have one: "exp p b e = Inr 1" if "e = 0" "b \<noteq> 0"
  proof -
    from that have "exp p b e = Inr (b ^ nat e mod p)" by (intro nonneg) simp_all
    also have "b ^ nat e mod p = 1" using that p1 by simp
    finally show ?thesis .
  qed
  have inverse: "\<exists>r. exp p b e = Inr r \<and> (r * b ^ nat (- e)) mod p = 1" if "e < 0" "b \<noteq> 0"
  proof -
    from that(2) assms(2) have "0 < b" by simp
    with assms have "mul p b (invF p b) = 1" using invF_correct by blast
    then have "(invF p b * b) mod p = 1" using p by (simp add: mul_eq mult.commute)
    then have "((invF p b ^ nat (- e) mod p) * b ^ nat (- e)) mod p = 1"
      using p1 by (rule power_mult_inverse)
    with neg [OF that(1)] show ?thesis by simp
  qed
  from err zero one flip nonneg neg inverse show ?thesis by blast
qed

theorem exp_spec_witness:
  "exp 7 3 (-2) = Inr 4 \<and> exp 7 (invF 7 3) 2 = Inr 4 \<and> (4 * 3 ^ 2) mod 7 = (1::int)"
proof -
  have e: "exp 7 3 (-2) = Inr 4"
    by code_simp
  have "(0::int) \<le> 3" "(3::int) < 7" by simp_all
  from exp_spec [OF is_prime_7 this, of "-2"] e show ?thesis by simp
qed


subsection \<open>Montgomery batch inversion\<close>

lemma pprod_Suc: "pprod p vs (Suc i) = (pprod p vs i * orOne (vs ! i)) mod p"
  by (simp add: pprod_def mod_mult_left_eq)

lemma pprod_range: "0 < p \<Longrightarrow> 0 \<le> pprod p vs i \<and> pprod p vs i < p"
  by (simp add: pprod_def)

lemma inv_forward_eq:
  assumes "1 < p"
  shows "fold (\<lambda>i (result, last). (result @ [last], modF p (last * orOne (vs ! i))))
           [0..<k] ([], 1) = (map (pprod p vs) [0..<k], pprod p vs k)"
proof (induction k)
  case 0
  from assms show ?case by (simp add: pprod_def)
next
  case (Suc k)
  from assms have "0 < p" by simp
  with Suc show ?case by (simp add: pprod_Suc modF_eq)
qed

lemma orOne_unit:
  assumes "is_prime p" "0 \<le> v" "v < p"
  shows "\<not> p dvd orOne v"
proof -
  from assms(1) have "1 < p" by (rule is_prime_gt1)
  with assms(2,3) have "0 < orOne v" "orOne v < p" by (simp_all add: orOne_def)
  then show ?thesis by (simp add: zdvd_not_zless)
qed

lemma pprod_nonzero:
  assumes "is_prime p" "\<forall>v\<in>set vs. 0 \<le> v \<and> v < p"
  shows "k \<le> length vs \<Longrightarrow> pprod p vs k \<noteq> 0"
proof (induction k)
  case 0
  from assms(1) have "1 < p" by (rule is_prime_gt1)
  then show ?case by (simp add: pprod_def)
next
  case (Suc k)
  then have k: "k < length vs" by simp
  with assms(2) have "0 \<le> vs ! k \<and> vs ! k < p" by simp
  with assms(1) have u: "\<not> p dvd orOne (vs ! k)" by (simp add: orOne_unit)
  from Suc have "\<not> p dvd pprod p vs k" by (simp add: pprod_def dvd_eq_mod_eq_0)
  then have "\<not> p dvd (\<Prod>j<k. orOne (vs ! j))" by (simp add: pprod_def dvd_eq_mod_eq_0)
  with u assms(1) have "\<not> p dvd (\<Prod>j<k. orOne (vs ! j)) * orOne (vs ! k)"
    using is_prime_dvd_mult by blast
  then show ?case by (simp add: pprod_def dvd_eq_mod_eq_0)
qed

lemma inverse_unique:
  fixes a b v p :: int
  assumes "0 \<le> a" "a < p" "0 \<le> b" "b < p" "(a * v) mod p = 1" "(b * v) mod p = 1"
  shows "a = b"
proof -
  have "a mod p = (a * ((b * v) mod p)) mod p" using assms(6) by simp
  also have "\<dots> = (b * ((a * v) mod p)) mod p"
    by (simp add: mod_mult_right_eq mult.left_commute)
  also have "\<dots> = b mod p" using assms(5) by simp
  finally show ?thesis using assms(1-4) by simp
qed

lemma inv_backward_gen:
  assumes pr: "is_prime p" and rng: "\<forall>v\<in>set vs. 0 \<le> v \<and> v < p"
  defines "step \<equiv> (\<lambda>i (result, inv).
             (result[i := modF p (if vs ! i \<noteq> 0 then result ! i * inv else 0)],
              mul p inv (orOne (vs ! i))))"
  shows "k \<le> length vs \<Longrightarrow> length result = length vs
     \<Longrightarrow> \<forall>i<k. result ! i = pprod p vs i
     \<Longrightarrow> (iv * pprod p vs k) mod p = 1
     \<Longrightarrow> length (fst (fold step (rev [0..<k]) (result, iv))) = length vs
       \<and> (\<forall>i<k. fst (fold step (rev [0..<k]) (result, iv)) ! i = invF p (vs ! i))
       \<and> (\<forall>i. k \<le> i \<and> i < length vs
              \<longrightarrow> fst (fold step (rev [0..<k]) (result, iv)) ! i = result ! i)"
proof (induction k arbitrary: result iv)
  case 0
  then show ?case by simp
next
  case (Suc k)
  from pr have p1: "1 < p" by (rule is_prime_gt1)
  then have p: "0 < p" by simp
  from Suc(2) have k: "k < length vs" by simp
  with rng have vk: "0 \<le> vs ! k" "vs ! k < p" by simp_all
  let ?w = "modF p (if vs ! k \<noteq> 0 then result ! k * iv else 0)"
  let ?result = "result[k := ?w]"
  let ?iv = "mul p iv (orOne (vs ! k))"
  let ?final = "fst (fold step (rev [0..<k]) (?result, ?iv))"
  have unfold: "fold step (rev [0..<Suc k]) (result, iv) = fold step (rev [0..<k]) (?result, ?iv)"
    by (simp add: step_def)
  have rk: "result ! k = pprod p vs k" using Suc(4) by simp
  have "(?iv * pprod p vs k) mod p = ((iv * orOne (vs ! k)) mod p * pprod p vs k) mod p"
    using p by (simp add: mul_eq)
  also have "\<dots> = (iv * orOne (vs ! k) * pprod p vs k) mod p"
    by (simp only: mod_mult_left_eq)
  also have "\<dots> = (iv * (pprod p vs k * orOne (vs ! k))) mod p"
    by (simp only: ac_simps)
  also have "\<dots> = (iv * pprod p vs (Suc k)) mod p"
    by (simp add: pprod_Suc mod_mult_right_eq)
  finally have inv': "(?iv * pprod p vs k) mod p = 1" using Suc(5) by simp
  have IH: "length ?final = length vs
       \<and> (\<forall>i<k. ?final ! i = invF p (vs ! i))
       \<and> (\<forall>i. k \<le> i \<and> i < length vs \<longrightarrow> ?final ! i = ?result ! i)"
    using Suc(1) [of ?result ?iv] Suc(2,3,4) inv' by simp
  have wk: "?w = invF p (vs ! k)"
  proof (cases "vs ! k = 0")
    case True
    with p show ?thesis by (simp add: invF_def modF_eq)
  next
    case False
    with vk have pos: "0 < vs ! k" by simp
    with pr vk have i: "0 \<le> invF p (vs ! k)" "invF p (vs ! k) < p" "mul p (vs ! k) (invF p (vs ! k)) = 1"
      using invF_correct by blast+
    have w: "?w = (pprod p vs k * iv) mod p" using False p rk by (simp add: modF_eq)
    have "(?w * vs ! k) mod p = ((pprod p vs k * iv) mod p * vs ! k) mod p"
      by (simp only: w)
    also have "\<dots> = (pprod p vs k * iv * vs ! k) mod p"
      by (simp only: mod_mult_left_eq)
    also have "\<dots> = (iv * (pprod p vs k * orOne (vs ! k))) mod p"
      using False by (simp add: orOne_def ac_simps)
    also have "\<dots> = (iv * pprod p vs (Suc k)) mod p"
      by (simp add: pprod_Suc mod_mult_right_eq)
    finally have w1: "(?w * vs ! k) mod p = 1" using Suc(5) by simp
    have i1: "(invF p (vs ! k) * vs ! k) mod p = 1"
      using i(3) p by (simp add: mul_eq mult.commute)
    have wr: "0 \<le> ?w" "?w < p" using p by (simp_all add: modF_range)
    from wr i(1,2) w1 i1 show ?thesis by (rule inverse_unique)
  qed
  have "?final ! k = ?result ! k" using IH k by simp
  also have "\<dots> = invF p (vs ! k)" using Suc(3) k wk by simp
  finally have atk: "?final ! k = invF p (vs ! k)" .
  have "\<forall>i<Suc k. ?final ! i = invF p (vs ! i)"
    using IH atk by (auto simp: less_Suc_eq)
  moreover have "\<forall>i. Suc k \<le> i \<and> i < length vs \<longrightarrow> ?final ! i = result ! i"
    using IH by auto
  ultimately show ?case using IH by (simp only: unfold)
qed

lemma invVectorElements_eq:
  assumes "is_prime p" "\<forall>v\<in>set vs. 0 \<le> v \<and> v < p"
  shows "invVectorElements p vs = map (invF p) vs"
proof -
  from assms(1) have p1: "1 < p" by (rule is_prime_gt1)
  then have p: "0 < p" by simp
  let ?n = "length vs"
  let ?pre = "map (pprod p vs) [0..<?n]"
  let ?last = "pprod p vs ?n"
  have fwd: "inv_forward p vs = (?pre, ?last)"
    unfolding inv_forward_def by (rule inv_forward_eq [OF p1])
  have "?last \<noteq> 0" using assms by (simp add: pprod_nonzero)
  then have "0 < ?last" "?last < p" using pprod_range [OF p, of vs ?n] by simp_all
  with assms(1) have "mul p ?last (invF p ?last) = 1" using invF_correct by blast
  then have one: "(invF p ?last * ?last) mod p = 1" using p by (simp add: mul_eq mult.commute)
  let ?res = "fst (inv_backward p vs ?pre (invF p ?last))"
  have "length ?res = length vs \<and> (\<forall>i<?n. ?res ! i = invF p (vs ! i))"
    unfolding inv_backward_def
    using inv_backward_gen [OF assms, of ?n ?pre "invF p ?last"] one by simp
  then have "?res = map (invF p) vs"
    by (intro nth_equalityI) simp_all
  then show ?thesis by (simp add: invVectorElements_def fwd)
qed

text \<open>
  C2. For a prime modulus and a vector \<open>v\<close> of elements of \<open>[0, p)\<close>, \<open>invVectorElements(v)\<close>
  returns a vector of the same length whose entry \<open>i\<close> is \<open>inv(v[i])\<close>; an entry 0 is mapped
  to 0, and nothing is thrown (the model of the function is total).
\<close>

theorem invVectorElements_spec:
  assumes "is_prime p" "\<forall>v\<in>set vs. 0 \<le> v \<and> v < p"
  shows "length (invVectorElements p vs) = length vs
       \<and> (\<forall>i<length vs. invVectorElements p vs ! i = invF p (vs ! i)
                       \<and> (vs ! i = 0 \<longrightarrow> invVectorElements p vs ! i = 0))"
  by (simp add: invVectorElements_eq [OF assms] invF_def)

theorem invVectorElements_spec_witness:
  "length (invVectorElements 7 [3, 0, 5]) = 3
   \<and> invVectorElements 7 [3, 0, 5] ! 0 = invF 7 3
   \<and> invVectorElements 7 [3, 0, 5] ! 1 = 0
   \<and> invVectorElements 7 [3, 0, 5] ! 2 = invF 7 5"
proof -
  have "\<forall>v\<in>set [3, 0, 5::int]. 0 \<le> v \<and> v < 7" by simp
  note s = invVectorElements_spec [OF is_prime_7 this]
  from s have l: "length (invVectorElements 7 [3, 0, 5]) = 3" by simp
  from s have a: "invVectorElements 7 [3, 0, 5] ! i = invF 7 ([3, 0, 5] ! i)
      \<and> ([3, 0, 5::int] ! i = 0 \<longrightarrow> invVectorElements 7 [3, 0, 5] ! i = 0)"
    if "i < length [3, 0, 5::int]" for i
    using that by blast
  from a [of 0] a [of 1] a [of 2] l show ?thesis by simp
qed


subsection \<open>Products of linear factors\<close>

lemma length_mulLin: "length (mulLin x t) = Suc (length t)"
  by (simp add: mulLin_def)

lemma cf_mulLin: "cf (mulLin x t) j = (if j = 0 then 0 else cf t (j - 1)) - cf t j * x"
proof (cases "j < Suc (length t)")
  case True
  then have "mulLin x t ! j = (if j = 0 then 0 else cf t (j - 1)) - cf t j * x"
    unfolding mulLin_def by (simp only: nth_map length_upt minus_nat.diff_0 nth_upt add_0)
  with True show ?thesis by (simp add: cf_def length_mulLin)
next
  case False
  then show ?thesis by (auto simp: cf_def length_mulLin)
qed

lemma list_eq_cf:
  assumes "length s = length t" "\<And>j. cf s j = cf t j"
  shows "s = t"
proof (rule nth_equalityI)
  show "length s = length t" by (rule assms(1))
next
  fix i
  assume "i < length s"
  with assms(1) assms(2) [of i] show "s ! i = t ! i" by (simp add: cf_def)
qed

lemma mulLin_commute: "mulLin a (mulLin b t) = mulLin b (mulLin a t)"
proof (rule list_eq_cf)
  show "length (mulLin a (mulLin b t)) = length (mulLin b (mulLin a t))"
    by (simp add: length_mulLin)
next
  fix j
  show "cf (mulLin a (mulLin b t)) j = cf (mulLin b (mulLin a t)) j"
    by (simp add: cf_mulLin algebra_simps)
qed

lemma fold_mulLin_commute: "fold mulLin bs (mulLin x t) = mulLin x (fold mulLin bs t)"
proof (induction bs arbitrary: t)
  case Nil
  show ?case by simp
next
  case (Cons b bs)
  have "fold mulLin (b # bs) (mulLin x t) = fold mulLin bs (mulLin x (mulLin b t))"
    by (simp add: mulLin_commute)
  also have "\<dots> = mulLin x (fold mulLin bs (mulLin b t))"
    by (rule Cons.IH)
  finally show ?case by simp
qed

lemma zspec_split: "zspec (as @ x # bs) = mulLin x (zspec (as @ bs))"
  by (simp add: zspec_def fold_mulLin_commute)

lemma pev_mulLin: "pev (mulLin x t) X = (X - x) * pev t X"
proof -
  let ?n = "length t"
  have a: "(\<Sum>j<Suc ?n. (if j = 0 then 0 else cf t (j - 1)) * X ^ j) = X * pev t X"
    by (simp add: sum.lessThan_Suc_shift cf_def pev_def sum_distrib_left mult.assoc mult.left_commute
        del: sum.lessThan_Suc)
  have b: "(\<Sum>j<Suc ?n. cf t j * X ^ j) = pev t X"
    by (simp add: cf_def pev_def)
  have "pev (mulLin x t) X =
      (\<Sum>j<Suc ?n. ((if j = 0 then 0 else cf t (j - 1)) - cf t j * x) * X ^ j)"
    unfolding pev_def length_mulLin
    by (rule sum.cong) (simp_all add: mulLin_def del: upt_Suc)
  also have "\<dots> = (\<Sum>j<Suc ?n. (if j = 0 then 0 else cf t (j - 1)) * X ^ j
                                - x * (cf t j * X ^ j))"
    by (rule sum.cong) (simp_all add: algebra_simps)
  also have "\<dots> = (\<Sum>j<Suc ?n. (if j = 0 then 0 else cf t (j - 1)) * X ^ j)
                  - x * (\<Sum>j<Suc ?n. cf t j * X ^ j)"
    by (simp only: sum_subtractf sum_distrib_left)
  also have "\<dots> = (X - x) * pev t X"
    by (simp only: a b left_diff_distrib)
  finally show ?thesis .
qed

lemma pev_fold_mulLin:
  "pev (fold mulLin zs t) X = prod_list (map (\<lambda>z. X - z) zs) * pev t X"
  by (induction zs arbitrary: t) (simp_all add: pev_mulLin ac_simps)

lemma pev_one: "pev [1] X = 1"
  by (simp add: pev_def)

lemma pev_zspec: "pev (zspec zs) X = prod_list (map (\<lambda>z. X - z) zs)"
  by (simp add: zspec_def pev_fold_mulLin pev_one)

lemma length_fold_mulLin: "length (fold mulLin zs t) = length zs + length t"
  by (induction zs arbitrary: t) (simp_all add: length_mulLin)

lemma length_zspec: "length (zspec zs) = Suc (length zs)"
  by (simp add: zspec_def length_fold_mulLin)

lemma last_mulLin: "t \<noteq> [] \<Longrightarrow> last (mulLin x t) = last t"
proof -
  assume t: "t \<noteq> []"
  have "last (mulLin x t) = mulLin x t ! length t"
    by (simp add: last_conv_nth length_mulLin mulLin_def del: upt_Suc)
  also have "\<dots> = cf (mulLin x t) (length t)" by (simp add: cf_def length_mulLin)
  also have "\<dots> = cf t (length t - 1)"
    using t by (simp only: cf_mulLin) (simp add: cf_def)
  also have "\<dots> = last t" using t by (simp add: cf_def last_conv_nth)
  finally show ?thesis .
qed

lemma last_fold_mulLin: "t \<noteq> [] \<Longrightarrow> last (fold mulLin zs t) = last t"
proof (induction zs arbitrary: t)
  case (Cons z zs)
  have "mulLin z t \<noteq> []" using length_mulLin [of z t] by auto
  with Cons show ?case by (simp add: last_mulLin)
qed simp

lemma last_zspec: "last (zspec zs) = 1"
  by (simp add: zspec_def last_fold_mulLin)

subsection \<open>The vanishing polynomial computed by \<open>zpoly\<close>\<close>

lemma fold_index: "fold (\<lambda>i. f (xs ! i)) [0..<length xs] s = fold f xs s"
proof (induction xs arbitrary: s rule: rev_induct)
  case Nil
  show ?case by simp
next
  case (snoc x xs)
  have "fold (\<lambda>i. f ((xs @ [x]) ! i)) [0..<length xs] s = fold (\<lambda>i. f (xs ! i)) [0..<length xs] s"
    by (rule fold_cong) (simp_all add: nth_append)
  with snoc show ?case by simp
qed

lemma zpoly_round_gen:
  fixes p x :: int
  defines "f \<equiv> \<lambda>j (r::int list). r[j := modF p (r ! j - r ! (j + 1) * x)]"
  shows "k \<le> length r - 1 \<Longrightarrow>
   fold f [0..<k] r =
   map (\<lambda>j. if j < k then modF p (r ! j - r ! (j + 1) * x) else r ! j) [0..<length r]"
proof (induction k)
  case 0
  show ?case by (simp add: map_nth)
next
  case (Suc k)
  let ?L = "map (\<lambda>j. if j < k then modF p (r ! j - r ! (j + 1) * x) else r ! j) [0..<length r]"
  from Suc(2) have k: "k < length r" "k + 1 < length r" by simp_all
  from Suc have IH: "fold f [0..<k] r = ?L"
    by simp
  have Lk: "?L ! k = r ! k" "?L ! (k + 1) = r ! (k + 1)" using k by simp_all
  have "fold f [0..<Suc k] r = f k ?L"
    by (simp add: IH)
  also have "\<dots> = ?L[k := modF p (?L ! k - ?L ! (k + 1) * x)]"
    by (simp only: f_def)
  also have "\<dots> = ?L[k := modF p (r ! k - r ! (k + 1) * x)]"
    by (simp only: Lk)
  also have "\<dots> = map (\<lambda>j. if j < Suc k then modF p (r ! j - r ! (j + 1) * x) else r ! j)
                     [0..<length r]"
    by (rule nth_equalityI) (auto simp: nth_list_update less_Suc_eq)
  finally show ?case .
qed

lemma zpoly_round_eq:
  "zpoly_round p x r =
   map (\<lambda>j. if j < length r - 1 then modF p (r ! j - r ! (j + 1) * x) else r ! j) [0..<length r]"
  unfolding zpoly_round_def by (rule zpoly_round_gen) simp

lemma length_zpoly_round: "length (zpoly_round p x r) = length r"
  by (simp add: zpoly_round_eq)

lemma nth_zpoly_round:
  "j < length r \<Longrightarrow>
   zpoly_round p x r ! j = (if j < length r - 1 then modF p (r ! j - r ! (j + 1) * x) else r ! j)"
  by (simp add: zpoly_round_eq del: upt_Suc)

lemma length_reduce: "length (reduce p t) = length t"
  by (simp add: reduce_def)

lemma cf_reduce: "cf (reduce p t) j = cf t j mod p"
  by (simp add: cf_def reduce_def)

lemma mod_sub_mult: "(a - (b mod p) * x) mod p = (a - b * x) mod (p::int)"
proof -
  have "(a - (b mod p) * x) mod p = (a - ((b mod p) * x) mod p) mod p"
    by (simp add: mod_diff_right_eq)
  also have "\<dots> = (a - (b * x) mod p) mod p"
    by (simp add: mod_mult_left_eq)
  also have "\<dots> = (a - b * x) mod p"
    by (simp add: mod_diff_right_eq)
  finally show ?thesis .
qed

lemma mod_sub_mult2: "(a mod p - (b mod p) * x) mod p = (a - b * x) mod (p::int)"
proof -
  have "(a mod p - (b mod p) * x) mod p = (a mod p - b * x) mod p"
    by (rule mod_sub_mult)
  also have "\<dots> = (a - b * x) mod p"
    by (simp add: mod_diff_left_eq)
  finally show ?thesis .
qed

lemma zpoly_round_mulLin:
  assumes "0 < p"
  shows "zpoly_round p x (0 # reduce p t) = reduce p (mulLin x t)"
proof (rule list_eq_cf)
  show "length (zpoly_round p x (0 # reduce p t)) = length (reduce p (mulLin x t))"
    by (simp add: length_zpoly_round length_reduce length_mulLin)
next
  fix j
  let ?r = "0 # reduce p t"
  show "cf (zpoly_round p x ?r) j = cf (reduce p (mulLin x t)) j"
  proof (cases "j < Suc (length t)")
    case False
    then show ?thesis
      by (simp add: cf_def length_zpoly_round length_reduce length_mulLin)
  next
    case True
    have r: "?r ! i = (if i = 0 then 0 else cf t (i - 1)) mod p" if "i < Suc (length t)" for i
      using that by (cases i) (simp_all add: cf_def reduce_def)
    have lhs: "cf (zpoly_round p x ?r) j =
        (if j < length t then modF p (?r ! j - ?r ! (j + 1) * x) else ?r ! j)"
      using True by (simp add: cf_def length_zpoly_round nth_zpoly_round length_reduce
          del: nth_Cons_Suc)
    have rhs: "cf (reduce p (mulLin x t)) j = ((if j = 0 then 0 else cf t (j - 1)) - cf t j * x) mod p"
      by (simp add: cf_reduce cf_mulLin)
    show ?thesis
    proof (cases "j < length t")
      case False
      with True have j: "j = length t" by simp
      then have "cf t j = 0" by (simp add: cf_def)
      with False True show ?thesis by (simp only: lhs rhs r if_False) simp
    next
      case less: True
      have "?r ! (j + 1) = cf t j mod p" using less r [of "j + 1"] by simp
      with less True assms show ?thesis
        by (simp only: lhs rhs r if_True modF_eq mod_sub_mult2)
    qed
  qed
qed

lemma zpoly_eq:
  assumes "1 < p"
  shows "zpoly xs p = reduce p (zspec xs)"
proof -
  from assms have p: "0 < p" by simp
  have gen: "fold (\<lambda>x result. zpoly_round p x (0 # result)) zs (reduce p t)
           = reduce p (fold mulLin zs t)" for zs t
    by (induction zs arbitrary: t) (simp_all add: zpoly_round_mulLin [OF p])
  have one: "[1] = reduce p [1]" using assms by (simp add: reduce_def)
  have "zpoly xs p = fold (\<lambda>x result. zpoly_round p x (0 # result)) xs [1]"
    unfolding zpoly_def by (rule fold_index)
  also have "\<dots> = reduce p (fold mulLin xs [1])"
    by (subst one) (rule gen)
  finally show ?thesis by (simp add: zspec_def)
qed

lemma lastNonZeroIndex_last:
  "vs \<noteq> [] \<Longrightarrow> last vs \<noteq> 0 \<Longrightarrow> lastNonZeroIndex vs = Some (length vs - 1)"
proof -
  assume a: "vs \<noteq> []" "last vs \<noteq> 0"
  then obtain n where n: "length vs = Suc n" by (cases vs) simp_all
  with a have "vs ! n \<noteq> 0" by (simp add: last_conv_nth)
  then show ?thesis by (simp add: lastNonZeroIndex_def n)
qed

subsection \<open>Division by a linear factor\<close>

lemma invF_one: "1 < p \<Longrightarrow> invF p 1 = 1"
  by (simp add: invF_def modF_eq inv_loop.simps)

lemma divF_one: "1 < p \<Longrightarrow> divF p c 1 = c mod p"
  by (simp add: divF_def mul_eq invF_one)

lemma divPolys_step_linear:
  "divPolys_step p [- x, 1] (Suc 0) d (a, result) =
     (let quot = divF p (a ! Suc d) 1
      in (a[Suc d := modF p (a ! Suc d - quot), d := modF p (a ! d + x * quot)], quot # result))"
proof -
  show ?thesis
    by (simp add: divPolys_step_def Let_def)
qed

lemma mod_add_mult: "(a + x * (b mod p)) mod p = (a mod p + x * b) mod (p::int)"
proof -
  have "(a + x * (b mod p)) mod p = (a mod p + (x * (b mod p)) mod p) mod p"
    by (simp add: mod_add_eq)
  also have "(x * (b mod p)) mod p = (x * b) mod p"
    by (simp add: mod_mult_right_eq)
  also have "(a mod p + (x * b) mod p) mod p = (a mod p + x * b) mod p"
    by (simp add: mod_add_right_eq)
  finally show ?thesis .
qed

lemma divPolys_loop:
  assumes "1 < p"
  shows "n \<le> length t \<Longrightarrow> length a = Suc (length t)
     \<Longrightarrow> (0 < n \<longrightarrow> a ! n mod p = t ! (n - 1) mod p)
     \<Longrightarrow> \<forall>j<n. a ! j mod p = cf (mulLin x t) j mod p
     \<Longrightarrow> snd (fold (divPolys_step p [- x, 1] (Suc 0)) (rev [0..<n]) (a, result))
         = reduce p (take n t) @ result"
proof (induction n arbitrary: a result)
  case 0
  show ?case by (simp add: reduce_def)
next
  case (Suc d)
  from assms have p: "0 < p" by simp
  from Suc(2) have d: "d < length t" by simp
  let ?quot = "divF p (a ! Suc d) 1"
  let ?a = "a[Suc d := modF p (a ! Suc d - ?quot), d := modF p (a ! d + x * ?quot)]"
  have quot: "?quot = t ! d mod p"
    using Suc(4) assms by (simp add: divF_one)
  have ad: "a ! d mod p = ((if d = 0 then 0 else cf t (d - 1)) - cf t d * x) mod p"
    using Suc(5) by (simp add: cf_mulLin)
  have "?a ! d = (a ! d + x * (t ! d mod p)) mod p"
    using d Suc(3) p by (simp add: quot modF_eq)
  also have "\<dots> = (a ! d mod p + x * t ! d) mod p"
    by (rule mod_add_mult)
  also have "\<dots> = (((if d = 0 then 0 else cf t (d - 1)) - cf t d * x) mod p + x * t ! d) mod p"
    by (simp only: ad)
  also have "\<dots> = ((if d = 0 then 0 else cf t (d - 1)) - cf t d * x + x * t ! d) mod p"
    by (simp only: mod_add_left_eq)
  also have "\<dots> = (if d = 0 then 0 else cf t (d - 1)) mod p"
    using d by (simp add: cf_def)
  finally have carry: "0 < d \<longrightarrow> ?a ! d mod p = t ! (d - 1) mod p"
    using d by (simp add: cf_def)
  have below: "\<forall>j<d. ?a ! j mod p = cf (mulLin x t) j mod p"
    using Suc(5) by simp
  have len: "length ?a = Suc (length t)" using Suc(3) by simp
  have "snd (fold (divPolys_step p [- x, 1] (Suc 0)) (rev [0..<Suc d]) (a, result))
      = snd (fold (divPolys_step p [- x, 1] (Suc 0)) (rev [0..<d]) (?a, ?quot # result))"
    by (simp add: divPolys_step_linear Let_def)
  also have "\<dots> = reduce p (take d t) @ (?quot # result)"
    using d len carry below by (intro Suc.IH) simp_all
  also have "\<dots> = reduce p (take (Suc d) t) @ result"
    using d by (simp add: quot reduce_def take_Suc_conv_app_nth)
  finally show ?case .
qed

lemma divPolys_mulLin:
  assumes "1 < p" "t \<noteq> []" "last t mod p \<noteq> 0"
  shows "divPolys p (reduce p (mulLin x t)) [- x, 1] = Inr (reduce p t)"
proof -
  let ?a = "reduce p (mulLin x t)"
  let ?n = "length t"
  from assms(2) have n: "0 < ?n" by simp
  have len: "length ?a = Suc ?n" by (simp add: length_reduce length_mulLin)
  have ne: "?a \<noteq> []" "mulLin x t \<noteq> []" using len length_mulLin [of x t] by auto
  have "last ?a = last (mulLin x t) mod p" using ne by (simp add: reduce_def last_map)
  then have "last ?a \<noteq> 0" using assms(2,3) by (simp add: last_mulLin)
  with ne have apos: "lastNonZeroIndex ?a = Some ?n"
    using lastNonZeroIndex_last [of ?a] by (simp add: len)
  have bpos: "lastNonZeroIndex [- x, 1] = Some 1"
    using lastNonZeroIndex_last [of "[- x, 1]"] by simp
  have nth: "?a ! j = cf (mulLin x t) j mod p" if "j < Suc ?n" for j
    using that by (simp add: reduce_def cf_def length_mulLin)
  have "cf (mulLin x t) ?n = cf t (?n - 1) - cf t ?n * x"
    using n by (simp only: cf_mulLin) simp
  also have "\<dots> = t ! (?n - 1)"
    using n by (simp add: cf_def)
  finally have top: "?a ! ?n mod p = t ! (?n - 1) mod p"
    by (simp add: nth)
  have "snd (fold (divPolys_step p [- x, 1] (Suc 0)) (rev [0..<?n]) (?a, [])) = reduce p (take ?n t) @ []"
    using len top nth by (intro divPolys_loop [OF assms(1)]) simp_all
  then have loop: "snd (fold (divPolys_step p [- x, 1] (Suc 0)) (rev [0..<?n]) (?a, [])) = reduce p t"
    by simp
  have nat: "nat (int ?n - int 1 + 1) = ?n" by simp
  show ?thesis
    using n by (simp add: divPolys_def len apos bpos loop del: upt_Suc)
qed

lemma mapE_Inr: "(\<And>i. i \<in> set is \<Longrightarrow> f i = Inr (g i)) \<Longrightarrow> mapE f is = Inr (map g is)"
  by (induction "is") simp_all

subsection \<open>Evaluation at a point\<close>

lemma evalPolyAt_loop:
  assumes "1 < p"
  shows "fold (\<lambda>i (y, powerOfx). (modF p (y + q ! i * powerOfx), mul p powerOfx x)) [0..<k] (0, 1)
       = ((\<Sum>j<k. q ! j * x ^ j) mod p, x ^ k mod p)"
proof (induction k)
  case 0
  from assms show ?case by simp
next
  case (Suc k)
  from assms have p: "0 < p" by simp
  have "((\<Sum>j<k. q ! j * x ^ j) mod p + q ! k * (x ^ k mod p)) mod p
         = ((\<Sum>j<k. q ! j * x ^ j) mod p mod p + q ! k * x ^ k) mod p"
    by (rule mod_add_mult)
  also have "\<dots> = ((\<Sum>j<k. q ! j * x ^ j) + q ! k * x ^ k) mod p"
    by (simp add: mod_add_left_eq)
  finally have a: "((\<Sum>j<k. q ! j * x ^ j) mod p + q ! k * (x ^ k mod p)) mod p
         = ((\<Sum>j<k. q ! j * x ^ j) + q ! k * x ^ k) mod p" .
  have b: "(x ^ k mod p * x) mod p = (x * x ^ k) mod p"
    by (simp add: mod_simps mult.commute)
  from Suc show ?case
    by (simp add: modF_eq [OF p] mul_eq [OF p] a b)
qed

lemma evalPolyAt_eq:
  assumes "1 < p" "\<forall>c\<in>set q. 0 \<le> c \<and> c < p"
  shows "evalPolyAt p q x = pev q x mod p"
proof -
  from assms(1) have p: "0 < p" by simp
  have single: "c = c mod p" if "q = [c]" for c
    using that assms(2) by simp
  show ?thesis
    unfolding evalPolyAt_def evalPolyAt_loop [OF assms(1)]
    using single
    by (simp add: pev_def modF_eq [OF p] Let_def algebra_simps split: list.split)
qed

subsection \<open>The accumulation loops of \<open>interpolate\<close>\<close>

lemma pev_reduce: "pev (reduce p t) X mod p = pev t X mod p"
proof -
  have "(\<Sum>j<n. (t ! j mod p) * X ^ j) mod p = (\<Sum>j<n. t ! j * X ^ j) mod p" for n
  proof (induction n)
    case (Suc n)
    have "((\<Sum>j<n. (t ! j mod p) * X ^ j) + (t ! n mod p) * X ^ n) mod p
        = ((\<Sum>j<n. t ! j * X ^ j) + t ! n * X ^ n) mod p"
      by (rule mod_add_cong [OF Suc]) (simp add: mod_mult_left_eq)
    then show ?case by simp
  qed simp
  then show ?thesis by (simp add: pev_def reduce_def)
qed

lemma sum_mod_cong:
  fixes f g :: "nat \<Rightarrow> int"
  shows "(\<forall>j<k. f j mod p = g j mod p) \<Longrightarrow> (\<Sum>j<k. f j * X ^ j) mod p = (\<Sum>j<k. g j * X ^ j) mod p"
proof (induction k)
  case (Suc k)
  then have IH: "(\<Sum>j<k. f j * X ^ j) mod p = (\<Sum>j<k. g j * X ^ j) mod p" by simp
  from Suc(2) have "f k mod p = g k mod p" by simp
  then have "(f k * X ^ k) mod p = (g k * X ^ k) mod p" by (rule mod_mult_cong) simp
  with IH have "((\<Sum>j<k. f j * X ^ j) + f k * X ^ k) mod p = ((\<Sum>j<k. g j * X ^ j) + g k * X ^ k) mod p"
    by (rule mod_add_cong)
  then show ?case by simp
qed simp

lemma sum_single_mod:
  fixes f :: "nat \<Rightarrow> int"
  assumes "n < k" "\<forall>i<k. i \<noteq> n \<longrightarrow> p dvd f i"
  shows "(\<Sum>i<k. f i) mod p = f n mod p"
proof -
  have "(\<Sum>i<k. f i) = f n + sum f ({..<k} - {n})"
    using assms(1) by (simp add: sum.remove)
  moreover have "p dvd sum f ({..<k} - {n})"
    using assms(2) by (intro dvd_sum) simp
  ultimately show ?thesis by (simp add: mod_add_right_eq [symmetric] mod_eq_0_iff_dvd [symmetric])
qed

lemma not_dvd_prod_list:
  assumes "is_prime p"
  shows "\<forall>a\<in>set as. \<not> p dvd a \<Longrightarrow> \<not> p dvd prod_list as"
proof (induction as)
  case Nil
  from assms have "1 < p" by (rule is_prime_gt1)
  then show ?case by (simp add: zdvd_not_zless)
next
  case (Cons a as)
  with assms show ?case using is_prime_dvd_mult by auto
qed

lemma not_dvd_diff:
  fixes a b p :: int
  assumes "0 \<le> a" "a < p" "0 \<le> b" "b < p" "a \<noteq> b"
  shows "\<not> p dvd a - b"
proof
  assume "p dvd a - b"
  then have "\<bar>p\<bar> \<le> \<bar>a - b\<bar>" using assms(5) by (intro dvd_imp_le_int) simp_all
  with assms show False by simp
qed

lemma fold_update_gen:
  fixes c :: "nat \<Rightarrow> bool" and g :: "int \<Rightarrow> nat \<Rightarrow> int"
  defines "f \<equiv> \<lambda>j (r::int list). if c j then r[j := g (r ! j) j] else r"
  shows "k \<le> length r \<Longrightarrow>
    fold f [0..<k] r = map (\<lambda>j. if j < k \<and> c j then g (r ! j) j else r ! j) [0..<length r]"
proof (induction k)
  case 0
  show ?case by (simp add: map_nth)
next
  case (Suc k)
  let ?L = "map (\<lambda>j. if j < k \<and> c j then g (r ! j) j else r ! j) [0..<length r]"
  from Suc(2) have k: "k < length r" by simp
  from Suc have IH: "fold f [0..<k] r = ?L" by simp
  have Lk: "?L ! k = r ! k" using k by simp
  have "fold f [0..<Suc k] r = f k ?L" by (simp add: IH)
  also have "\<dots> = (if c k then ?L[k := g (?L ! k) k] else ?L)" by (simp only: f_def)
  also have "\<dots> = (if c k then ?L[k := g (r ! k) k] else ?L)" by (simp only: Lk)
  also have "\<dots> = map (\<lambda>j. if j < Suc k \<and> c j then g (r ! j) j else r ! j) [0..<length r]"
  proof (rule nth_equalityI, goal_cases)
    case 1
    show ?case by simp
  next
    case (2 i)
    then have i: "i < length r" by (simp split: if_splits)
    show ?case
      by (cases "i = k") (use i k in \<open>auto simp: less_Suc_eq\<close>)
  qed
  finally show ?case .
qed

lemma interpolate_sum_Suc:
  "interpolate_sum p nums ys invs (Suc m) =
     fold (\<lambda>j result.
             if nums ! m ! j \<noteq> 0 \<and> ys ! m \<noteq> 0
             then result[j := modF p (result ! j + nums ! m ! j * modF p (ys ! m * invs ! m))]
             else result)
       [0..<length ys] (interpolate_sum p nums ys invs m)"
  by (simp add: interpolate_sum_def Let_def del: upt_Suc add: upt_Suc_append)

lemma interpolate_sum_inv:
  assumes p: "0 < p"
  shows "(\<forall>i<m. length (nums ! i) = length ys) \<Longrightarrow>
         length (interpolate_sum p nums ys invs m) = length ys
       \<and> (\<forall>c\<in>set (interpolate_sum p nums ys invs m). 0 \<le> c \<and> c < p)
       \<and> (\<forall>X. pev (interpolate_sum p nums ys invs m) X mod p
               = (\<Sum>i<m. modF p (ys ! i * invs ! i) * pev (nums ! i) X) mod p)"
proof (induction m)
  case 0
  from p show ?case by (simp add: interpolate_sum_def pev_def)
next
  case (Suc m)
  let ?R = "interpolate_sum p nums ys invs m"
  let ?S = "modF p (ys ! m * invs ! m)"
  let ?n = "nums ! m"
  let ?k = "length ys"
  let ?c = "\<lambda>j. ?n ! j \<noteq> 0 \<and> ys ! m \<noteq> 0"
  let ?g = "\<lambda>v j. modF p (v + ?n ! j * ?S)"
  let ?R' = "map (\<lambda>j. if j < ?k \<and> ?c j then ?g (?R ! j) j else ?R ! j) [0..<?k]"
  from Suc have IH: "length ?R = ?k" "\<forall>c\<in>set ?R. 0 \<le> c \<and> c < p"
    "\<And>X. pev ?R X mod p = (\<Sum>i<m. modF p (ys ! i * invs ! i) * pev (nums ! i) X) mod p"
    by simp_all
  from Suc(2) have ln: "length ?n = ?k" by simp
  have step: "interpolate_sum p nums ys invs (Suc m) = ?R'"
    unfolding interpolate_sum_Suc
    using fold_update_gen [of ?k ?R ?c ?g] IH(1) by simp
  have Rj: "0 \<le> ?R ! j \<and> ?R ! j < p" if "j < ?k" for j
    using that IH(1,2) by simp
  have S0: "?S = 0" if "ys ! m = 0"
    using that p by (simp add: modF_eq)
  have entry: "?R' ! j mod p = (?R ! j + ?n ! j * ?S) mod p" if "j < ?k" for j
  proof (cases "?c j")
    case True
    with that p show ?thesis by (simp add: modF_eq)
  next
    case False
    then have z: "?n ! j * ?S = 0" using S0 by auto
    from False that have "?R' ! j = ?R ! j" by auto
    then show ?thesis by (simp only: z add_0_right)
  qed
  have range: "\<forall>c\<in>set ?R'. 0 \<le> c \<and> c < p"
    using Rj p by (auto simp: modF_range)
  have "pev ?R' X mod p = (\<Sum>i<Suc m. modF p (ys ! i * invs ! i) * pev (nums ! i) X) mod p" for X
  proof -
    have "pev ?R' X mod p = (\<Sum>j<?k. ?R' ! j * X ^ j) mod p"
      by (simp add: pev_def)
    also have "\<dots> = (\<Sum>j<?k. (?R ! j + ?n ! j * ?S) * X ^ j) mod p"
      using entry by (intro sum_mod_cong) simp
    also have "(\<Sum>j<?k. (?R ! j + ?n ! j * ?S) * X ^ j) = pev ?R X + ?S * pev ?n X"
      by (simp add: pev_def IH(1) ln sum.distrib sum_distrib_left algebra_simps)
    also have "(pev ?R X + ?S * pev ?n X) mod p
        = ((\<Sum>i<m. modF p (ys ! i * invs ! i) * pev (nums ! i) X) + ?S * pev ?n X) mod p"
      using IH(3) [of X] by (rule mod_add_cong) simp
    finally show ?thesis by simp
  qed
  with range show ?case by (simp only: step) simp
qed

subsection \<open>Lagrange interpolation\<close>

text \<open>
  C5. For a prime modulus, pairwise distinct nodes \<open>xs\<close> in \<open>[0, p)\<close> and as many values
  \<open>ys\<close> in \<open>[0, p)\<close>, \<open>interpolate(xs, ys)\<close> returns a polynomial \<open>L\<close> with
  \<open>evalPolyAt(L, xs[i]) = ys[i]\<close> for every index \<open>i\<close>.
\<close>

theorem interpolate_spec:
  assumes pr: "is_prime p" and dist: "distinct xs"
    and xr: "\<forall>x\<in>set xs. 0 \<le> x \<and> x < p"
    and len: "length ys = length xs"
    and yr: "\<forall>y\<in>set ys. 0 \<le> y \<and> y < p"
  shows "\<exists>L. interpolate p xs ys = Inr L \<and> (\<forall>i<length xs. evalPolyAt p L (xs ! i) = ys ! i)"
proof -
  from pr have p1: "1 < p" by (rule is_prime_gt1)
  then have p: "0 < p" by simp
  define k where "k = length xs"
  define others where "others i = take i xs @ drop (Suc i) xs" for i
  define Q where "Q i = zspec (others i)" for i
  define N where "N i = reduce p (Q i)" for i
  define D where "D i = pev (Q i) (xs ! i) mod p" for i
  define nums where "nums = map N [0..<k]"
  define invs where "invs = map (\<lambda>i. invF p (D i)) [0..<k]"
  define L where "L = interpolate_sum p nums ys invs k"

  have split: "xs = take i xs @ xs ! i # drop (Suc i) xs" if "i < k" for i
    using that by (simp add: k_def id_take_nth_drop)
  have lenQ: "length (Q i) = k" if "i < k" for i
    using that by (simp add: Q_def others_def length_zspec k_def)
  have root: "zpoly xs p = reduce p (mulLin (xs ! i) (Q i))" if "i < k" for i
  proof -
    have "zspec xs = zspec (take i xs @ xs ! i # drop (Suc i) xs)"
      using split [OF that] by simp
    also have "\<dots> = mulLin (xs ! i) (Q i)"
      by (simp only: zspec_split Q_def others_def)
    finally show ?thesis by (simp add: zpoly_eq [OF p1])
  qed
  have num: "divPolys p (zpoly xs p) [- (xs ! i), 1] = Inr (N i)" if "i < k" for i
  proof -
    have "Q i \<noteq> []" using lenQ [OF that] that by auto
    moreover have "last (Q i) mod p \<noteq> 0" using p1 by (simp add: Q_def last_zspec)
    ultimately show ?thesis
      unfolding root [OF that] N_def by (intro divPolys_mulLin [OF p1])
  qed
  have numerators: "mapE (\<lambda>i. divPolys p (zpoly xs p) [- (xs ! i), 1]) [0..<k] = Inr nums"
    unfolding nums_def by (rule mapE_Inr) (simp add: num)
  have Nrange: "\<forall>c\<in>set (N i). 0 \<le> c \<and> c < p" for i
    using p by (simp add: N_def reduce_def)
  have evalN: "evalPolyAt p (N i) X mod p = pev (Q i) X mod p" for i X
    using evalPolyAt_eq [OF p1 Nrange] by (simp add: N_def pev_reduce)
  have den: "map (\<lambda>i. evalPolyAt p (nums ! i) (xs ! i)) [0..<k] = map D [0..<k]"
    using evalPolyAt_eq [OF p1 Nrange] by (simp add: nums_def D_def N_def pev_reduce)
  have Drange: "\<forall>v\<in>set (map D [0..<k]). 0 \<le> v \<and> v < p"
    using p by (simp add: D_def)
  have inverted: "invVectorElements p (map D [0..<k]) = invs"
    using invVectorElements_eq [OF pr Drange] by (simp add: invs_def)
  have result: "interpolate p xs ys = Inr L"
    using len by (simp add: interpolate_def numerators [unfolded k_def] bindE_def
        den [unfolded k_def] inverted [unfolded k_def] L_def k_def Let_def)

  have "\<forall>i<k. length (nums ! i) = length ys"
    using lenQ by (simp add: nums_def N_def length_reduce len k_def)
  from interpolate_sum_inv [OF p this, of invs]
  have Lrange: "\<forall>c\<in>set L. 0 \<le> c \<and> c < p"
    and Lpev: "\<And>X. pev L X mod p = (\<Sum>i<k. modF p (ys ! i * invs ! i) * pev (nums ! i) X) mod p"
    by (simp_all add: L_def)

  have mem: "xs ! n \<in> set (others i)" if "n < k" "i < k" "n \<noteq> i" for n i
  proof (cases "n < i")
    case True
    with that have "xs ! n = take i xs ! n" by simp
    moreover have "n < length (take i xs)" using True that by (simp add: k_def)
    ultimately have "xs ! n \<in> set (take i xs)" by (metis nth_mem)
    then show ?thesis by (simp add: others_def)
  next
    case False
    with that have gt: "i < n" by simp
    then obtain d where d: "n = Suc i + d" using less_iff_Suc_add by auto
    with that have "xs ! n = drop (Suc i) xs ! d" by (simp add: k_def)
    moreover have "d < length (drop (Suc i) xs)" using d that by (simp add: k_def)
    ultimately have "xs ! n \<in> set (drop (Suc i) xs)" by (metis nth_mem)
    then show ?thesis by (simp add: others_def)
  qed
  have vanish: "p dvd pev (nums ! i) (xs ! n)" if "n < k" "i < k" "n \<noteq> i" for n i
  proof -
    have "(0::int) \<in> set (map (\<lambda>z. xs ! n - z) (others i))"
      using mem [OF that] by (auto simp: image_iff)
    then have "prod_list (map (\<lambda>z. xs ! n - z) (others i)) = 0"
      by (simp only: prod_list_zero_iff)
    then have "pev (Q i) (xs ! n) = 0" by (simp add: Q_def pev_zspec)
    then have "pev (N i) (xs ! n) mod p = 0"
      unfolding N_def by (simp add: pev_reduce)
    with that show ?thesis by (simp add: nums_def mod_eq_0_iff_dvd)
  qed
  have Dunit: "D n \<noteq> 0" if "n < k" for n
  proof -
    have notin: "xs ! n \<notin> set (others n)"
    proof -
      from dist split [OF that] have "distinct (take n xs @ xs ! n # drop (Suc n) xs)" by simp
      then show ?thesis by (simp add: others_def)
    qed
    have sub: "set (others n) \<subseteq> set xs"
      unfolding others_def using set_take_subset [of n xs] set_drop_subset [of "Suc n" xs] by auto
    have xn: "0 \<le> xs ! n" "xs ! n < p" using that xr by (simp_all add: k_def)
    have "\<forall>a\<in>set (map (\<lambda>z. xs ! n - z) (others n)). \<not> p dvd a"
    proof
      fix a
      assume "a \<in> set (map (\<lambda>z. xs ! n - z) (others n))"
      then obtain z where z: "z \<in> set (others n)" "a = xs ! n - z" by auto
      from z(1) sub have "z \<in> set xs" by auto
      with xr have zr: "0 \<le> z" "z < p" by simp_all
      from z(1) notin have "xs ! n \<noteq> z" by auto
      with xn zr show "\<not> p dvd a" unfolding z(2) by (intro not_dvd_diff)
    qed
    then have "\<not> p dvd prod_list (map (\<lambda>z. xs ! n - z) (others n))"
      by (rule not_dvd_prod_list [OF pr])
    then show ?thesis by (simp add: D_def Q_def pev_zspec mod_eq_0_iff_dvd)
  qed
  have at_node: "evalPolyAt p L (xs ! n) = ys ! n" if "n < k" for n
  proof -
    let ?x = "xs ! n"
    let ?i = "invF p (D n)"
    have "0 \<le> D n \<and> D n < p" using p by (simp add: D_def)
    with Dunit [OF that] have "0 < D n" "D n < p" by simp_all
    with pr have "mul p (D n) ?i = 1" using invF_correct by blast
    then have unit: "(?i * D n) mod p = 1" using p by (simp add: mul_eq mult.commute)
    have y: "0 \<le> ys ! n \<and> ys ! n < p" using that yr len by (simp add: k_def)
    have "evalPolyAt p L ?x = pev L ?x mod p"
      by (rule evalPolyAt_eq [OF p1 Lrange])
    also have "\<dots> = (\<Sum>i<k. modF p (ys ! i * invs ! i) * pev (nums ! i) ?x) mod p"
      by (rule Lpev)
    also have "\<dots> = (modF p (ys ! n * invs ! n) * pev (nums ! n) ?x) mod p"
      using that vanish by (intro sum_single_mod) auto
    also have "\<dots> = ((ys ! n * ?i) mod p * pev (N n) ?x) mod p"
      using that p by (simp add: invs_def nums_def modF_eq)
    also have "\<dots> = (ys ! n * ?i * pev (N n) ?x) mod p"
      by (simp only: mod_mult_left_eq)
    also have "\<dots> = (ys ! n * ?i * (pev (N n) ?x mod p)) mod p"
      by (simp only: mod_mult_right_eq)
    also have "pev (N n) ?x mod p = D n"
      by (simp add: N_def pev_reduce D_def)
    also have "(ys ! n * ?i * D n) mod p = (ys ! n * ((?i * D n) mod p)) mod p"
      by (simp only: mod_mult_right_eq mult.assoc)
    also have "\<dots> = ys ! n"
      using y by (simp add: unit)
    finally show ?thesis .
  qed
  with result show ?thesis by (auto simp: k_def)
qed

theorem interpolate_spec_witness:
  "\<exists>L. interpolate 7 [2, 3, 5] [4, 2, 4] = Inr L
      \<and> evalPolyAt 7 L 2 = 4 \<and> evalPolyAt 7 L 3 = 2 \<and> evalPolyAt 7 L 5 = 4"
proof -
  have "distinct [2, 3, 5::int]" "\<forall>x\<in>set [2, 3, 5::int]. 0 \<le> x \<and> x < 7"
    "length [4, 2, 4::int] = length [2, 3, 5::int]" "\<forall>y\<in>set [4, 2, 4::int]. 0 \<le> y \<and> y < 7"
    by simp_all
  from interpolate_spec [OF is_prime_7 this]
  obtain L where L: "interpolate 7 [2, 3, 5] [4, 2, 4] = Inr L"
    and e: "\<And>i. i < length [2, 3, 5::int] \<Longrightarrow> evalPolyAt 7 L ([2, 3, 5] ! i) = [4, 2, 4] ! i"
    by blast
  from e [of 0] e [of 1] e [of 2] L show ?thesis by simp
qed

subsection \<open>Fermat's little theorem\<close>

lemma not_dvd_prod:
  assumes "is_prime p"
  shows "finite A \<Longrightarrow> \<forall>x\<in>A. \<not> p dvd g x \<Longrightarrow> \<not> p dvd prod g A"
proof (induction A rule: finite_induct)
  case empty
  from assms have "1 < p" by (rule is_prime_gt1)
  then show ?case by (simp add: zdvd_not_zless)
next
  case (insert x A)
  with assms show ?case using is_prime_dvd_mult by auto
qed

lemma not_dvd_unit:
  fixes p x :: int
  shows "0 < x \<Longrightarrow> x < p \<Longrightarrow> \<not> p dvd x"
  by (simp add: zdvd_not_zless)

lemma fermat_little:
  assumes pr: "is_prime p" and a: "\<not> p dvd a"
  shows "a ^ nat (p - 1) mod p = 1"
proof -
  from pr have p1: "1 < p" by (rule is_prime_gt1)
  let ?S = "{1..p - 1}"
  let ?f = "\<lambda>x. (a * x) mod p"
  have unit: "\<not> p dvd x" if "x \<in> ?S" for x
    using that by (intro not_dvd_unit) simp_all
  have inj: "inj_on ?f ?S"
  proof (rule inj_onI)
    fix x y
    assume x: "x \<in> ?S" and y: "y \<in> ?S" and e: "(a * x) mod p = (a * y) mod p"
    from e have "p dvd a * x - a * y" by (simp add: mod_eq_dvd_iff)
    then have "p dvd a * (x - y)" by (simp add: right_diff_distrib)
    with pr a have "p dvd x - y" using is_prime_dvd_mult by blast
    show "x = y"
    proof (rule ccontr)
      assume "x \<noteq> y"
      with x y have "\<not> p dvd x - y" by (intro not_dvd_diff) simp_all
      with \<open>p dvd x - y\<close> show False by simp
    qed
  qed
  have sub: "?f ` ?S \<subseteq> ?S"
  proof
    fix z
    assume "z \<in> ?f ` ?S"
    then obtain x where x: "x \<in> ?S" and z: "z = (a * x) mod p" by auto
    from pr a unit [OF x] have "\<not> p dvd a * x" using is_prime_dvd_mult by blast
    then have "z \<noteq> 0" by (simp add: z mod_eq_0_iff_dvd)
    moreover have "0 \<le> z" "z < p" using p1 by (simp_all add: z)
    ultimately show "z \<in> ?S" by simp
  qed
  have "card (?f ` ?S) = card ?S" using inj by (rule card_image)
  with sub have img: "?f ` ?S = ?S" by (intro card_subset_eq) simp_all
  have "prod (\<lambda>x. x) ?S = prod (\<lambda>x. x) (?f ` ?S)" by (simp only: img)
  also have "\<dots> = prod ?f ?S" using inj by (simp add: prod.reindex)
  finally have "prod (\<lambda>x. x) ?S mod p = prod ?f ?S mod p" by simp
  also have "\<dots> = prod (\<lambda>x. a * x) ?S mod p" by (rule mod_prod_eq)
  also have "prod (\<lambda>x. a * x) ?S = a ^ nat (p - 1) * prod (\<lambda>x. x) ?S"
    by (simp add: prod.distrib)
  finally have "(a ^ nat (p - 1) * prod (\<lambda>x. x) ?S) mod p = prod (\<lambda>x. x) ?S mod p"
    by (rule sym)
  then have "p dvd a ^ nat (p - 1) * prod (\<lambda>x. x) ?S - prod (\<lambda>x. x) ?S"
    by (simp only: mod_eq_dvd_iff)
  also have "a ^ nat (p - 1) * prod (\<lambda>x. x) ?S - prod (\<lambda>x. x) ?S
      = (a ^ nat (p - 1) - 1) * prod (\<lambda>x. x) ?S"
    by (simp only: left_diff_distrib mult_1)
  finally have "p dvd (a ^ nat (p - 1) - 1) * prod (\<lambda>x. x) ?S" .
  moreover have "\<not> p dvd prod (\<lambda>x. x) ?S"
    using unit by (intro not_dvd_prod [OF pr]) simp_all
  ultimately have "p dvd a ^ nat (p - 1) - 1" using pr is_prime_dvd_mult by blast
  then have "a ^ nat (p - 1) mod p = 1 mod p" by (simp add: mod_eq_dvd_iff)
  with p1 show ?thesis by simp
qed

subsection \<open>The number of roots of a polynomial modulo a prime\<close>

lemma cf_Nil: "cf [] j = 0"
  by (simp add: cf_def)

lemma cf_Cons_0: "cf (c # q) 0 = c"
  by (simp add: cf_def)

lemma cf_Cons_Suc: "cf (c # q) (Suc j) = cf q j"
  by (simp add: cf_def)

lemma cf_tl: "cf (tl h) j = cf h (Suc j)"
  by (cases h) (simp_all add: cf_Nil cf_Cons_Suc)

lemma length_horner: "length (horner a q) = length q"
  by (induction q) simp_all

lemma cf_horner: "cf q j = cf (horner a q) j - a * cf (horner a q) (Suc j)"
proof (induction q arbitrary: j)
  case Nil
  show ?case by (simp add: cf_Nil)
next
  case (Cons c q)
  show ?case
  proof (cases j)
    case 0
    then show ?thesis by (simp add: cf_Cons_0 cf_Cons_Suc)
  next
    case (Suc j')
    with Cons [of j'] show ?thesis by (simp add: cf_Cons_Suc)
  qed
qed

lemma pev_cf: "pev q X = (\<Sum>j<length q. cf q j * X ^ j)"
  by (simp add: pev_def cf_def)

lemma horner_division:
  fixes a :: int and q :: "int list"
  assumes "q \<noteq> []"
  defines "g \<equiv> tl (horner a q)" and "r \<equiv> cf (horner a q) 0"
  shows "length g = length q - 1"
    and "cf q j = cf (mulLin a g) j + (if j = 0 then r else 0)"
    and "pev q X = (X - a) * pev g X + r"
proof -
  show len: "length g = length q - 1" by (simp add: g_def length_horner)
  show coeff: "cf q j = cf (mulLin a g) j + (if j = 0 then r else 0)" for j
    by (cases j) (simp_all add: cf_mulLin g_def r_def cf_tl cf_horner [of q _ a])
  from assms(1) len have l: "length (mulLin a g) = length q" "0 < length q"
    by (simp_all add: length_mulLin)
  have "pev q X = (\<Sum>j<length q. (cf (mulLin a g) j + (if j = 0 then r else 0)) * X ^ j)"
    unfolding pev_cf by (rule sum.cong) (simp_all only: coeff)
  also have "\<dots> = (\<Sum>j<length q. cf (mulLin a g) j * X ^ j)
                  + (\<Sum>j<length q. (if j = 0 then r else 0) * X ^ j)"
    by (simp only: distrib_right sum.distrib)
  also have "(\<Sum>j<length q. cf (mulLin a g) j * X ^ j) = pev (mulLin a g) X"
    by (simp only: pev_cf l)
  also have "(\<Sum>j<length q. (if j = 0 then r else 0) * X ^ j) = r"
  proof -
    from l(2) obtain n where n: "length q = Suc n" by (cases "length q") simp_all
    show ?thesis unfolding n by (simp add: sum.lessThan_Suc_shift del: sum.lessThan_Suc)
  qed
  finally show "pev q X = (X - a) * pev g X + r" by (simp only: pev_mulLin)
qed

lemma roots_bound:
  assumes pr: "is_prime p"
  shows "distinct rs \<Longrightarrow> length rs = length q
     \<Longrightarrow> \<forall>r\<in>set rs. 0 \<le> r \<and> r < p \<and> p dvd pev q r
     \<Longrightarrow> p dvd cf q j"
proof (induction rs arbitrary: q j)
  case Nil
  then show ?case by (simp add: cf_def)
next
  case (Cons a rs)
  from Cons(3) have ne: "q \<noteq> []" by auto
  define g where "g = tl (horner a q)"
  define r0 where "r0 = cf (horner a q) 0"
  note hd = horner_division [OF ne, where a = a, folded g_def r0_def]
  from Cons(4) have a: "0 \<le> a" "a < p" "p dvd pev q a" by simp_all
  have "pev q a = r0" using hd(3) [of a] by simp
  with a(3) have r0: "p dvd r0" by simp
  have lg: "length rs = length g" using Cons(3) hd(1) by simp
  have "\<forall>r\<in>set rs. 0 \<le> r \<and> r < p \<and> p dvd pev g r"
  proof
    fix r
    assume r: "r \<in> set rs"
    with Cons(4) have rr: "0 \<le> r" "r < p" "p dvd pev q r" by simp_all
    from r Cons(2) have "r \<noteq> a" by auto
    with rr a have nd: "\<not> p dvd r - a" by (intro not_dvd_diff)
    from rr(3) have "p dvd (r - a) * pev g r + r0" by (simp only: hd(3))
    with r0 have "p dvd (r - a) * pev g r" using dvd_add_left_iff by blast
    with pr nd have "p dvd pev g r" using is_prime_dvd_mult by blast
    with rr show "0 \<le> r \<and> r < p \<and> p dvd pev g r" by simp
  qed
  with Cons(2) lg have g: "p dvd cf g i" for i
    using Cons.IH [of g i] by simp
  have "p dvd cf (mulLin a g) j"
    by (simp add: cf_mulLin g)
  with r0 show ?case by (simp add: hd(2) [of j])
qed

subsection \<open>The root of unity of order two\<close>

lemma pev_Cons: "pev (c # q) X = c + X * pev q X"
  by (simp add: pev_def sum.lessThan_Suc_shift sum_distrib_left mult.assoc mult.left_commute
      del: sum.lessThan_Suc)

lemma pev_Nil: "pev [] X = 0"
  by (simp add: pev_def)

lemma pev_monomial: "pev (replicate n 0 @ [1]) X = X ^ n"
  by (induction n) (simp_all add: pev_Nil pev_Cons)

lemma pev_xpow: "0 < m \<Longrightarrow> pev (xpow_minus_one m) X = X ^ m - 1"
proof -
  assume "0 < m"
  then obtain n where n: "m = Suc n" by (cases m) simp_all
  show ?thesis by (simp add: xpow_minus_one_def n pev_Cons [of "- 1"] pev_monomial)
qed

lemma length_xpow: "0 < m \<Longrightarrow> length (xpow_minus_one m) = Suc m"
  by (simp add: xpow_minus_one_def)

lemma cf_xpow_top: "0 < m \<Longrightarrow> cf (xpow_minus_one m) m = 1"
proof -
  assume "0 < m"
  then obtain n where n: "m = Suc n" by (cases m) simp_all
  show ?thesis by (simp add: xpow_minus_one_def n cf_def nth_append)
qed

lemma nonresidue_exists:
  assumes pr: "is_prime p" and m: "0 < m" "int m + 1 < p"
  shows "\<exists>i. 2 \<le> i \<and> i \<le> int m + 1 \<and> i ^ m mod p \<noteq> 1"
proof (rule ccontr)
  assume "\<not> ?thesis"
  then have all: "i ^ m mod p = 1" if "2 \<le> i" "i \<le> int m + 1" for i
    using that by blast
  from pr have p1: "1 < p" by (rule is_prime_gt1)
  let ?rs = "[1..int m + 1]"
  let ?q = "xpow_minus_one m"
  have "\<forall>r\<in>set ?rs. 0 \<le> r \<and> r < p \<and> p dvd pev ?q r"
  proof
    fix r
    assume "r \<in> set ?rs"
    then have r: "1 \<le> r" "r \<le> int m + 1" by simp_all
    have "r ^ m mod p = 1 mod p"
    proof (cases "r = 1")
      case True
      then show ?thesis by simp
    next
      case False
      with r all [of r] p1 show ?thesis by simp
    qed
    then have "p dvd r ^ m - 1" by (simp only: mod_eq_dvd_iff)
    with r m show "0 \<le> r \<and> r < p \<and> p dvd pev ?q r" by (simp add: pev_xpow)
  qed
  moreover have "distinct ?rs" by simp
  moreover have "length ?rs = length ?q" using m by (simp add: length_xpow)
  ultimately have "p dvd cf ?q m" by (intro roots_bound [OF pr])
  with m have "p dvd 1" by (simp add: cf_xpow_top)
  with p1 show False by simp
qed

lemma exp_nonneg:
  assumes "1 < p" "0 \<le> e" "\<not> (b mod p = 0 \<and> e = 0)"
  shows "exp p b e = Inr (b ^ nat e mod p)"
proof -
  from assms(1) have p: "0 < p" by simp
  have "exp_loop p (b mod p) e 1 = (1 * (b mod p) ^ nat e) mod p"
    using assms(1) p by (intro exp_loop_correct) simp_all
  also have "\<dots> = b ^ nat e mod p" by (simp add: power_mod)
  finally show ?thesis using assms(2,3) p by (simp add: exp_def modF_eq Let_def)
qed

lemma square_one:
  assumes pr: "is_prime p" and g: "0 \<le> g" "g < p" "g * g mod p = 1" "g \<noteq> 1"
  shows "g = p - 1"
proof -
  from pr have p1: "1 < p" by (rule is_prime_gt1)
  from g(3) p1 have "g * g mod p = 1 mod p" by simp
  then have "p dvd g * g - 1" by (simp only: mod_eq_dvd_iff)
  also have "g * g - 1 = (g - 1) * (g + 1)" by (simp add: algebra_simps)
  finally have "p dvd g - 1 \<or> p dvd g + 1" using pr is_prime_dvd_mult by blast
  moreover have "\<not> p dvd g - 1"
  proof
    assume "p dvd g - 1"
    then have "\<bar>p\<bar> \<le> \<bar>g - 1\<bar>" using g(4) by (intro dvd_imp_le_int) simp_all
    with g p1 show False by simp
  qed
  ultimately have "p dvd g + 1" by simp
  then have "\<bar>p\<bar> \<le> \<bar>g + 1\<bar>" using g(1) by (intro dvd_imp_le_int) simp_all
  with g p1 show ?thesis by simp
qed

lemma rootSearch_order2:
  assumes pr: "is_prime p" and odd: "odd p"
  shows "order = 2 \<Longrightarrow> 2 \<le> i
     \<Longrightarrow> \<exists>j. i \<le> j \<and> j < p \<and> j ^ nat ((p - 1) div 2) mod p \<noteq> 1
     \<Longrightarrow> rootSearch p order i = Inr (p - 1)"
  using pr odd
proof (induction p order i rule: rootSearch.induct)
  case (1 p order i)
  note pr = \<open>is_prime p\<close> and odd = \<open>odd p\<close> and ord = \<open>order = 2\<close> and i2 = \<open>2 \<le> i\<close>
  from pr have p1: "1 < p" by (rule is_prime_gt1)
  then have p: "0 < p" by simp
  let ?m = "nat ((p - 1) div 2)"
  from 1(5) obtain j where j: "i \<le> j" "j < p" "j ^ ?m mod p \<noteq> 1" by blast
  then have ip: "i < p" by simp
  from odd have "2 * ((p - 1) div 2) = p - 1" by presburger
  then have "nat (p - 1) = nat (2 * ((p - 1) div 2))" by simp
  also have "\<dots> = 2 * ?m" by (simp add: nat_mult_distrib)
  finally have twom: "2 * ?m = nat (p - 1)" by simp
  have ndvd: "\<not> p dvd i" using i2 ip by (intro not_dvd_unit) simp_all
  then have imod: "i mod p \<noteq> 0" by (simp add: mod_eq_0_iff_dvd)
  define g where "g = i ^ ?m mod p"
  have gr: "0 \<le> g" "g < p" using p by (simp_all add: g_def)
  have half: "(p - 1) sdiv int order = (p - 1) div 2"
    using p1 ord by (simp add: sdiv_nonneg)
  have e1: "exp p i ((p - 1) sdiv int order) = Inr g"
    unfolding half g_def using p1 imod by (intro exp_nonneg) simp_all
  have "g ^ 2 mod p = (i ^ ?m) ^ 2 mod p" by (simp add: g_def power_mod)
  also have "\<dots> = i ^ nat (p - 1) mod p"
    by (simp add: power_mult [symmetric] twom mult.commute)
  also have "\<dots> = 1" using pr ndvd by (rule fermat_little)
  finally have sq: "g ^ 2 mod p = 1" .
  have e2: "exp p g (int order) = Inr 1"
    using exp_nonneg [OF p1, of 2 g] sq ord by simp
  have e3: "exp p g (int order sdiv 2) = Inr g"
    using exp_one [OF p, of g] gr ord by (simp add: signed_divide_int_def)
  show ?case
  proof (cases "g = 1")
    case False
    from sq have "g * g mod p = 1" by (simp add: power2_eq_square)
    with pr gr False have "g = p - 1" by (intro square_one)
    with False ip e1 e2 e3 show ?thesis
      by (subst rootSearch.simps) (simp add: Let_def)
  next
    case True
    with j(3) have "j \<noteq> i" by (auto simp: g_def)
    with j have "\<exists>j. i + 1 \<le> j \<and> j < p \<and> j ^ ?m mod p \<noteq> 1" by (intro exI [of _ j]) simp
    with 1(1) [OF ip refl e1 e2 refl e3] True ord i2 pr odd
    have "rootSearch p order (i + 1) = Inr (p - 1)" by simp
    with True ip e1 e2 e3 show ?thesis
      by (subst rootSearch.simps) (simp add: Let_def)
  qed
qed

lemma is_prime_odd:
  assumes "is_prime p" "p \<noteq> 2"
  shows "odd p \<and> 2 < p"
proof -
  from assms(1) have p1: "1 < p" by (rule is_prime_gt1)
  with assms(2) have p2: "2 < p" by simp
  have "\<not> 2 dvd p"
  proof
    assume "2 dvd p"
    with assms(1) have "(2::int) = 1 \<or> 2 = p" by (intro is_prime_divisor) simp_all
    with assms(2) show False by simp
  qed
  with p2 show ?thesis by simp
qed

text \<open>
  C7 (amended). For every odd prime modulus \<open>p\<close>, \<open>getRootOfUnity(2)\<close> returns \<open>p - 1\<close>:
  every candidate \<open>g = i^((p-1)/2)\<close> squares to 1, the first candidate other than 1 is
  returned, it equals \<open>p - 1\<close>, and by the bound on the number of roots of \<open>X^((p-1)/2) - 1\<close>
  such a candidate exists.
\<close>

theorem getRootOfUnity_order2:
  assumes "is_prime p" "p \<noteq> 2"
  shows "getRootOfUnity p 2 = Inr (p - 1)"
proof -
  from assms have odd: "odd p" and p2: "2 < p" using is_prime_odd by blast+
  let ?m = "nat ((p - 1) div 2)"
  from p2 have m: "0 < ?m" by simp
  from odd have "2 * ((p - 1) div 2) = p - 1" by presburger
  with p2 have "int ?m + 1 < p" by simp
  with assms(1) m obtain i where i: "2 \<le> i" "i \<le> int ?m + 1" "i ^ ?m mod p \<noteq> 1"
    using nonresidue_exists by blast
  with \<open>int ?m + 1 < p\<close> have "\<exists>j. 2 \<le> j \<and> j < p \<and> j ^ ?m mod p \<noteq> 1"
    by (intro exI [of _ i]) simp
  then have "rootSearch p 2 2 = Inr (p - 1)"
    by (intro rootSearch_order2 [OF assms(1) odd]) simp_all
  moreover have "isPowerOf2 2" by (simp add: isPowerOf2.simps)
  ultimately show ?thesis by (simp add: getRootOfUnity_def)
qed

theorem getRootOfUnity_order2_witness: "getRootOfUnity 7 2 = Inr 6"
proof -
  have "(7::int) \<noteq> 2" by simp
  from getRootOfUnity_order2 [OF is_prime_7 this] show ?thesis by simp
qed

text \<open>
  C7 without the amendment fails: in GF(2) the search for order 2 finds nothing (there is
  no element of order 2, and \<open>p - 1 = 1\<close> is not returned), and for order 1 nothing is found
  in any field, here GF(17).
\<close>

theorem getRootOfUnity_counterexample:
  "is_prime 2 \<and> getRootOfUnity 2 2 = Inl (RootNotFound 2)
   \<and> is_prime 17 \<and> getRootOfUnity 17 1 = Inl (RootNotFound 1)"
  by code_simp

end
